theory Spec2Isabelle
  imports Main "HOL-Library.Multiset" "HOL-Library.AList"
begin

section \<open>Cards (src/game/Card.js)\<close>

text \<open>
  A card is a suit and a rank; \<open>value\<close> and \<open>id\<close> are computed once by the constructor
  from these two fields and never change, so the model computes them on demand
  (\<open>calculateValue\<close>).  \<open>SUITS\<close> and \<open>RANKS\<close> are the arrays of Card.js in their order.
\<close>

datatype suit = Hearts | Diamonds | Clubs | Spades

datatype rank = Ace | R2 | R3 | R4 | R5 | R6 | R7 | R8 | R9 | R10 | Jack | Queen | King

datatype card = Card (suit: suit) (rank: rank)

definition SUITS :: "suit list" where
  "SUITS = [Hearts, Diamonds, Clubs, Spades]"

definition RANKS :: "rank list" where
  "RANKS = [Ace, R2, R3, R4, R5, R6, R7, R8, R9, R10, Jack, Queen, King]"

text \<open>\<open>Array.prototype.indexOf\<close>: the first position of the element, \<open>-1\<close> when absent.\<close>

fun indexOf :: "'a list \<Rightarrow> 'a \<Rightarrow> int" where
  "indexOf [] x = -1"
| "indexOf (y # ys) x = (if y = x then 0 else (let k = indexOf ys x in if k = -1 then -1 else k + 1))"

text \<open>\<open>parseInt(rank, 10)\<close> on the rank strings \<open>'2'\<close> .. \<open>'10'\<close>.\<close>

fun parseInt :: "rank \<Rightarrow> int" where
  "parseInt R2 = 2" | "parseInt R3 = 3" | "parseInt R4 = 4" | "parseInt R5 = 5"
| "parseInt R6 = 6" | "parseInt R7 = 7" | "parseInt R8 = 8" | "parseInt R9 = 9"
| "parseInt R10 = 10" | "parseInt _ = 0"

definition calculateValue :: "card \<Rightarrow> int" where
  "calculateValue c =
     (if rank c = Ace then 1
      else if rank c \<in> set [Jack, Queen, King] then 10
      else parseInt (rank c))"

definition getRankIndex :: "card \<Rightarrow> int" where
  "getRankIndex c = indexOf RANKS (rank c)"

text \<open>\<open>Card.equals\<close>: same suit and same rank.\<close>

definition equals :: "card \<Rightarrow> card \<Rightarrow> bool" where
  "equals c other = (suit c = suit other \<and> rank c = rank other)"

section \<open>Spreads (src/game/Spread.js)\<close>

definition MIN_SPREAD_SIZE :: nat where
  "MIN_SPREAD_SIZE = 3"

datatype spreadType = Book | Run

text \<open>
  A laid spread (fields \<open>cards\<close>, \<open>type\<close>, \<open>owner\<close>, prefixed with \<open>s\<close> because the deck has a
  \<open>cards\<close> field too).  \<open>type\<close> is \<open>'book'\<close>, \<open>'run'\<close> or \<open>null\<close>; \<open>owner\<close> is the seat
  (index into the game's player array) of the player object the constructor stores; the
  spread's \<open>id\<close> is its address in the game's spread store (see below), so the record
  carries no separate id.
\<close>

record spread =
  scards :: "card list"
  stype :: "spreadType option"
  sowner :: nat

text \<open>
  \<open>[...cards].sort((a, b) => a.getRankIndex() - b.getRankIndex())\<close>: a stable sort by rank
  index, which is what \<open>sort_key\<close> (insertion sort) computes.
\<close>

definition sortByRank :: "card list \<Rightarrow> card list" where
  "sortByRank cs = sort_key getRankIndex cs"

definition isValidBook :: "card list \<Rightarrow> bool" where
  "isValidBook cs =
     (if length cs < MIN_SPREAD_SIZE then False
      else if length cs > 4 then False
      else list_all (\<lambda>c. rank c = rank (cs ! 0)) cs)"

text \<open>The loop \<open>for (i = 1; i < sorted.length; i++)\<close> of \<open>isValidRun\<close> over adjacent pairs.\<close>

fun consecutiveRanks :: "card list \<Rightarrow> bool" where
  "consecutiveRanks (p # c # cs) =
     (if getRankIndex c \<noteq> getRankIndex p + 1 then False else consecutiveRanks (c # cs))"
| "consecutiveRanks _ = True"

definition isValidRun :: "card list \<Rightarrow> bool" where
  "isValidRun cs =
     (if length cs < MIN_SPREAD_SIZE then False
      else if \<not> list_all (\<lambda>c. suit c = suit (cs ! 0)) cs then False
      else consecutiveRanks (sortByRank cs))"

datatype validation = Validation (valid: bool) (vtype: "spreadType option")

definition validate :: "card list \<Rightarrow> validation" where
  "validate cs =
     (if isValidBook cs then Validation True (Some Book)
      else if isValidRun cs then Validation True (Some Run)
      else Validation False None)"

text \<open>
  Errors of the model: a thrown \<open>Error(message)\<close>, and the \<open>TypeError\<close> JavaScript raises
  when a property of \<open>undefined\<close> is read (an empty card array, a seat that does not exist).
\<close>

datatype error = Error string | TypeError

definition canAddToBook :: "spread \<Rightarrow> card \<Rightarrow> error + bool" where
  "canAddToBook s c =
     (if length (scards s) \<ge> 4 then Inr False
      else (case scards s of [] \<Rightarrow> Inl TypeError | c0 # _ \<Rightarrow> Inr (rank c = rank c0)))"

definition canAddToRun :: "spread \<Rightarrow> card \<Rightarrow> error + bool" where
  "canAddToRun s c =
     (case scards s of
        [] \<Rightarrow> Inl TypeError
      | c0 # _ \<Rightarrow>
          if suit c \<noteq> suit c0 then Inr False
          else (let sorted = sortByRank (scards s);
                    lowestIndex = getRankIndex (sorted ! 0);
                    highestIndex = getRankIndex (sorted ! (length sorted - 1));
                    cardIndex = getRankIndex c
                in Inr (cardIndex = lowestIndex - 1 \<or> cardIndex = highestIndex + 1)))"

definition canAddCard :: "spread \<Rightarrow> card \<Rightarrow> error + bool" where
  "canAddCard s c =
     (case stype s of
        Some Book \<Rightarrow> canAddToBook s c
      | Some Run \<Rightarrow> canAddToRun s c
      | None \<Rightarrow> Inr False)"

text \<open>\<open>Spread.addCard\<close>: push, then re-sort a run.\<close>

definition Spread_addCard :: "spread \<Rightarrow> card \<Rightarrow> error + spread" where
  "Spread_addCard s c =
     (case canAddCard s c of
        Inl e \<Rightarrow> Inl e
      | Inr False \<Rightarrow> Inl (Error ''Cannot add this card to the spread'')
      | Inr True \<Rightarrow>
          (let s1 = s\<lparr>scards := scards s @ [c]\<rparr>
           in Inr (if stype s1 = Some Run then s1\<lparr>scards := sortByRank (scards s1)\<rparr> else s1)))"

section \<open>Enumerating the spreads latent in a hand (findPossibleSpreads, Spread.js)\<close>

text \<open>
  \<open>groupCardsByRank\<close> and \<open>groupCardsBySuit\<close> build a JavaScript object whose keys are
  created in first-occurrence order; the model keeps that order in an association list.
\<close>

definition addToGroup :: "'k \<Rightarrow> card \<Rightarrow> ('k \<times> card list) list \<Rightarrow> ('k \<times> card list) list" where
  "addToGroup k c groups =
     (let groups1 = (if map_of groups k = None then groups @ [(k, [])] else groups)
      in map (\<lambda>(k', cs). if k' = k then (k', cs @ [c]) else (k', cs)) groups1)"

definition groupCardsByRank :: "card list \<Rightarrow> (rank \<times> card list) list" where
  "groupCardsByRank cs = fold (\<lambda>c groups. addToGroup (rank c) c groups) cs []"

definition groupCardsBySuit :: "card list \<Rightarrow> (suit \<times> card list) list" where
  "groupCardsBySuit cs = fold (\<lambda>c groups. addToGroup (suit c) c groups) cs []"

text \<open>
  \<open>Object.entries\<close> lists integer-like keys first, in ascending numeric order, then the
  other string keys in creation order.  Of the rank strings, \<open>'2'\<close> .. \<open>'10'\<close> are
  integer-like; no suit name is.
\<close>

definition isIntegerKey :: "rank \<Rightarrow> bool" where
  "isIntegerKey r = (r \<notin> set [Ace, Jack, Queen, King])"

definition entriesByRank :: "(rank \<times> card list) list \<Rightarrow> (rank \<times> card list) list" where
  "entriesByRank groups =
     sort_key (\<lambda>(r, cs). parseInt r) (filter (\<lambda>(r, cs). isIntegerKey r) groups)
     @ filter (\<lambda>(r, cs). \<not> isIntegerKey r) groups"

text \<open>
  The scan of \<open>findConsecutiveRuns\<close>: \<open>prev\<close> is \<open>sorted[i - 1]\<close>, the list is
  \<open>sorted[i..]\<close>, and the pair carries \<open>runs\<close> and \<open>currentRun\<close>.
\<close>

fun runsLoop :: "card \<Rightarrow> card list \<Rightarrow> card list list \<times> card list \<Rightarrow> card list list \<times> card list" where
  "runsLoop prev [] acc = acc"
| "runsLoop prev (c # cs) (runs, currentRun) =
     (if getRankIndex c = getRankIndex prev + 1
      then runsLoop c cs (runs, currentRun @ [c])
      else runsLoop c cs
             (if length currentRun \<ge> MIN_SPREAD_SIZE then runs @ [currentRun] else runs, [c]))"

definition findConsecutiveRuns :: "card list \<Rightarrow> card list list" where
  "findConsecutiveRuns cs =
     (if length cs < MIN_SPREAD_SIZE then []
      else (case sortByRank cs of
              [] \<Rightarrow> []
            | s0 # rest \<Rightarrow>
                (let (runs, currentRun) = runsLoop s0 rest ([], [s0])
                 in if length currentRun \<ge> MIN_SPREAD_SIZE then runs @ [currentRun] else runs)))"

definition findPossibleSpreads :: "card list \<Rightarrow> (spreadType \<times> card list) list" where
  "findPossibleSpreads cs =
     (let books = concat (map (\<lambda>(r, rankCards).
                     if length rankCards \<ge> MIN_SPREAD_SIZE then [(Book, take 4 rankCards)] else [])
                   (entriesByRank (groupCardsByRank cs)));
          runs = concat (map (\<lambda>(s, suitCards).
                     map (\<lambda>runCards. (Run, runCards)) (findConsecutiveRuns suitCards))
                   (groupCardsBySuit cs))
      in books @ runs)"

section \<open>Deck (src/game/Deck.js)\<close>

record deck =
  cards :: "card list"
  discardPile :: "card list"

definition generateDeck :: "card list" where
  "generateDeck = concat (map (\<lambda>s. map (\<lambda>r. Card s r) RANKS) SUITS)"

text \<open>\<open>[a[i], a[j]] = [a[j], a[i]]\<close>: both reads happen before both writes.\<close>

definition swap :: "nat \<Rightarrow> nat \<Rightarrow> 'a list \<Rightarrow> 'a list" where
  "swap i j xs = xs[i := xs ! j, j := xs ! i]"

text \<open>
  Fisher-Yates.  The random source is a function \<open>rnd\<close>: at loop index \<open>i\<close> the value
  \<open>Math.floor(Math.random() * (i + 1))\<close>, an integer in \<open>0..i\<close>, is \<open>rnd i mod (i + 1)\<close>.
  The loop runs \<open>i\<close> from \<open>length - 1\<close> down to \<open>1\<close>.
\<close>

fun shuffleLoop :: "(nat \<Rightarrow> nat) \<Rightarrow> nat \<Rightarrow> card list \<Rightarrow> card list" where
  "shuffleLoop rnd 0 cs = cs"
| "shuffleLoop rnd (Suc k) cs = shuffleLoop rnd k (swap (Suc k) (rnd (Suc k) mod (Suc k + 1)) cs)"

definition shuffle :: "(nat \<Rightarrow> nat) \<Rightarrow> card list \<Rightarrow> card list" where
  "shuffle rnd cs = shuffleLoop rnd (length cs - 1) cs"

text \<open>\<open>new Deck()\<close>: generate, then shuffle; the discard pile starts empty.\<close>

definition newDeck :: "(nat \<Rightarrow> nat) \<Rightarrow> deck" where
  "newDeck rnd = \<lparr>cards = shuffle rnd generateDeck, discardPile = []\<rparr>"

text \<open>\<open>draw\<close> pops the end of the array; \<open>None\<close> is the \<open>null\<close> of an empty stock.\<close>

definition Deck_draw :: "deck \<Rightarrow> card option \<times> deck" where
  "Deck_draw d =
     (if length (cards d) = 0 then (None, d)
      else (Some (last (cards d)), d\<lparr>cards := butlast (cards d)\<rparr>))"

definition Deck_discard :: "deck \<Rightarrow> card \<Rightarrow> deck" where
  "Deck_discard d c = d\<lparr>discardPile := discardPile d @ [c]\<rparr>"

definition getTopDiscard :: "deck \<Rightarrow> card option" where
  "getTopDiscard d = (if length (discardPile d) = 0 then None else Some (last (discardPile d)))"

text \<open>\<open>discardPile.pop()\<close>: \<open>undefined\<close> (here \<open>None\<close>) on an empty pile, which is then unchanged.\<close>

definition Deck_drawFromDiscard :: "deck \<Rightarrow> card option \<times> deck" where
  "Deck_drawFromDiscard d =
     (if discardPile d = [] then (None, d)
      else (Some (last (discardPile d)), d\<lparr>discardPile := butlast (discardPile d)\<rparr>))"

section \<open>Players (src/game/Player.js)\<close>

text \<open>
  \<open>pid\<close> is the player's \<open>id\<close> string, made from the clock and the random source; the
  model takes it from the environment as a number.  \<open>spreads\<close> holds references to the
  spread objects the player has laid: addresses in the game's spread store.
\<close>

record player =
  pid :: nat
  name :: string
  hand :: "card list"
  isHuman :: bool
  spreads :: "nat list"
  chips :: int
  currentBet :: int
  isEliminated :: bool

definition newPlayer :: "nat \<Rightarrow> string \<Rightarrow> bool \<Rightarrow> player" where
  "newPlayer i n h =
     \<lparr>pid = i, name = n, hand = [], isHuman = h, spreads = [],
      chips = 0, currentBet = 0, isEliminated = False\<rparr>"

definition Player_addCard :: "player \<Rightarrow> card \<Rightarrow> player" where
  "Player_addCard p c = p\<lparr>hand := hand p @ [c]\<rparr>"

text \<open>\<open>Array.prototype.findIndex\<close>: the first position satisfying the test, \<open>-1\<close> when none.\<close>

fun findIndex :: "('a \<Rightarrow> bool) \<Rightarrow> 'a list \<Rightarrow> int" where
  "findIndex P [] = -1"
| "findIndex P (y # ys) = (if P y then 0 else (let k = findIndex P ys in if k = -1 then -1 else k + 1))"

text \<open>\<open>removeCard\<close> returns the removed card, or \<open>null\<close> (here \<open>None\<close>) and leaves the hand alone.\<close>

definition removeCard :: "player \<Rightarrow> card \<Rightarrow> card option \<times> player" where
  "removeCard p c =
     (let index = findIndex (\<lambda>x. equals x c) (hand p)
      in if index \<noteq> -1
         then (Some (hand p ! nat index),
               p\<lparr>hand := take (nat index) (hand p) @ drop (nat index + 1) (hand p)\<rparr>)
         else (None, p))"

fun removeCardsLoop :: "card list \<Rightarrow> card list \<times> player \<Rightarrow> card list \<times> player" where
  "removeCardsLoop [] acc = acc"
| "removeCardsLoop (c # cs) (removed, p) =
     (case removeCard p c of
        (Some removedCard, p1) \<Rightarrow> removeCardsLoop cs (removed @ [removedCard], p1)
      | (None, p1) \<Rightarrow> removeCardsLoop cs (removed, p1))"

definition removeCards :: "player \<Rightarrow> card list \<Rightarrow> card list \<times> player" where
  "removeCards p cs = removeCardsLoop cs ([], p)"

text \<open>
  \<open>removeCards\<close> above is the call with an array other than the player's own \<open>hand\<close>: the
  \<open>for ... of\<close> loop walks an array that \<open>removeCard\<close> does not touch.  In the call
  \<open>player.removeCards(player.hand)\<close> the loop walks the very array that \<open>removeCard\<close>
  splices: the iterator reads position \<open>i\<close> of the hand as it is by then, and stops when
  \<open>i\<close> is no longer below its length.
\<close>

function removeOwnHandLoop :: "nat \<Rightarrow> card list \<times> player \<Rightarrow> card list \<times> player" where
  "removeOwnHandLoop i (removed, p) =
     (if i < length (hand p)
      then (case removeCard p (hand p ! i) of
              (Some removedCard, p1) \<Rightarrow> removeOwnHandLoop (Suc i) (removed @ [removedCard], p1)
            | (None, p1) \<Rightarrow> removeOwnHandLoop (Suc i) (removed, p1))
      else (removed, p))"
  by pat_completeness auto
termination
  by (relation "measure (\<lambda>(i, removed, p). length (hand p) - i)")
     (auto simp: removeCard_def Let_def split: if_splits)

declare removeOwnHandLoop.simps [simp del]

definition removeOwnHand :: "player \<Rightarrow> card list \<times> player" where
  "removeOwnHand p = removeOwnHandLoop 0 ([], p)"

definition calculatePoints :: "player \<Rightarrow> int" where
  "calculatePoints p = foldl (\<lambda>sum c. sum + calculateValue c) 0 (hand p)"

definition hasEmptyHand :: "player \<Rightarrow> bool" where
  "hasEmptyHand p = (length (hand p) = 0)"

definition hasCard :: "player \<Rightarrow> card \<Rightarrow> bool" where
  "hasCard p c = list_ex (\<lambda>x. equals x c) (hand p)"

definition addSpread :: "player \<Rightarrow> nat \<Rightarrow> player" where
  "addSpread p a = p\<lparr>spreads := spreads p @ [a]\<rparr>"

definition Player_reset :: "player \<Rightarrow> player" where
  "Player_reset p = p\<lparr>hand := [], spreads := []\<rparr>"

definition bet :: "player \<Rightarrow> int \<Rightarrow> int \<times> player" where
  "bet p amount =
     (let actualBet = min amount (chips p)
      in (actualBet, p\<lparr>chips := chips p - actualBet, currentBet := currentBet p + actualBet\<rparr>))"

definition receiveChips :: "player \<Rightarrow> int \<Rightarrow> player" where
  "receiveChips p amount = p\<lparr>chips := chips p + amount\<rparr>"

definition resetBet :: "player \<Rightarrow> player" where
  "resetBet p = p\<lparr>currentBet := 0\<rparr>"

section \<open>The AI's knock decision (src/game/ComputerPlayer.js)\<close>

definition countSpreadPotential :: "player \<Rightarrow> nat" where
  "countSpreadPotential p = length (findPossibleSpreads (hand p))"

definition shouldKnock :: "player \<Rightarrow> bool" where
  "shouldKnock p =
     (let points = calculatePoints p
      in if points \<le> 3 then True
         else if points \<le> 5
              \<and> (let spreadPotential = countSpreadPotential p
                 in spreadPotential = 0 \<or> length (hand p) \<le> 2)
         then True
         else False)"

section \<open>Rules and constants (src/game/rules.js)\<close>

definition CARDS_PER_PLAYER :: nat where "CARDS_PER_PLAYER = 5"
definition INITIAL_TONK_MIN :: int where "INITIAL_TONK_MIN = 49"
definition INITIAL_TONK_MAX :: int where "INITIAL_TONK_MAX = 50"
definition MATCH_POINT_LIMIT :: int where "MATCH_POINT_LIMIT = 100"
definition STARTING_CHIPS :: int where "STARTING_CHIPS = 1000"
definition ANTE_AMOUNT :: int where "ANTE_AMOUNT = 10"

definition getCardsPerPlayer :: "nat \<Rightarrow> nat" where
  "getCardsPerPlayer playerCount = CARDS_PER_PLAYER"

definition hasInitialTonk :: "int \<Rightarrow> bool" where
  "hasInitialTonk points = (points \<ge> INITIAL_TONK_MIN \<and> points \<le> INITIAL_TONK_MAX)"

datatype phase = PRE_GAME | INITIAL_TONK_CHECK | START_OF_TURN | DRAW | ACTION | DISCARD | GAME_OVER

datatype winCondition = TONK | INITIAL_TONK | INITIAL_TONK_DRAW | KNOCK | CAUGHT | STOCK_EMPTY

section \<open>The game controller (src/game/Game.js)\<close>

text \<open>
  The state of a \<open>Game\<close> object after \<open>initialize\<close>.  Players are referred to by seat (their
  index in \<open>players\<close>, which never changes after \<open>initialize\<close>); \<open>winner\<close> and \<open>matchWinner\<close>
  are seats or \<open>null\<close>.  Spread objects are shared between \<open>spreadsOnTable\<close>, the owners'
  \<open>spreads\<close> arrays and the callers of \<open>hitSpread\<close>, so they live in a store
  (\<open>spreadStore\<close>, address = position) and the arrays hold addresses.  \<open>matchScores\<close> is the
  object keyed by player id, kept as an association list.  Event listeners are outside
  the game logic and are not modelled: \<open>emit\<close> changes no field of the game.
\<close>

datatype drawSource = FromDeck | FromDiscard

datatype action =
    DrawAction drawSource card
  | SpreadAction "card list" "spreadType option"
  | HitAction card nat
  | DiscardAction card

record game =
  deck :: deck
  players :: "player list"
  currentPlayerIndex :: nat
  phase :: phase
  spreadStore :: "spread list"
  spreadsOnTable :: "nat list"
  winner :: "nat option"
  winCondition :: "winCondition option"
  turnActions :: "action list"
  hasDrawnThisTurn :: bool
  matchScores :: "(nat \<times> int) list"
  pointLimit :: int
  matchWinner :: "nat option"
  roundNumber :: nat
  pot :: int
  highestBet :: int

text \<open>\<open>players[currentPlayerIndex]\<close>; \<open>None\<close> is \<open>undefined\<close>.\<close>

definition getCurrentPlayer :: "game \<Rightarrow> player option" where
  "getCurrentPlayer g =
     (if currentPlayerIndex g < length (players g)
      then Some (players g ! currentPlayerIndex g) else None)"

subsection \<open>Betting\<close>

text \<open>The body of the loop of \<open>collectAntes\<close> for the player in seat \<open>i\<close>.\<close>

definition anteStep :: "nat \<Rightarrow> game \<Rightarrow> game" where
  "anteStep i g =
     (let p = players g ! i
      in if \<not> isEliminated p
         then (let (actualAnte, p1) = bet (resetBet p) ANTE_AMOUNT
               in g\<lparr>players := (players g)[i := p1], pot := pot g + actualAnte\<rparr>)
         else g)"

definition collectAntes :: "game \<Rightarrow> game" where
  "collectAntes g =
     fold anteStep [0..<length (players g)] (g\<lparr>pot := 0, highestBet := ANTE_AMOUNT\<rparr>)"

definition placeBet :: "nat \<Rightarrow> int \<Rightarrow> game \<Rightarrow> error + (game \<times> int)" where
  "placeBet i amount g =
     (if \<not> i < length (players g) then Inl TypeError
      else if isEliminated (players g ! i) then Inl (Error ''Eliminated players cannot bet'')
      else (let (actualBet, p1) = bet (players g ! i) amount;
                g1 = g\<lparr>players := (players g)[i := p1], pot := pot g + actualBet\<rparr>;
                g2 = (if currentBet p1 > highestBet g1 then g1\<lparr>highestBet := currentBet p1\<rparr> else g1)
            in Inr (g2, actualBet)))"

definition awardPot :: "nat \<Rightarrow> game \<Rightarrow> error + (game \<times> int)" where
  "awardPot w g =
     (if \<not> w < length (players g) then Inl TypeError
      else (let winnings = pot g
            in Inr (g\<lparr>players := (players g)[w := receiveChips (players g ! w) winnings],
                     pot := 0\<rparr>, winnings)))"

definition resetBetting :: "game \<Rightarrow> game" where
  "resetBetting g = g\<lparr>pot := 0, highestBet := 0, players := map resetBet (players g)\<rparr>"

subsection \<open>Dealing and the initial tonk\<close>

text \<open>One pass of the inner loop of \<open>deal\<close>: every player in seat order draws one card.\<close>

definition dealStep :: "nat \<Rightarrow> game \<Rightarrow> game" where
  "dealStep i g =
     (case Deck_draw (deck g) of
        (Some c, d1) \<Rightarrow> g\<lparr>deck := d1, players := (players g)[i := Player_addCard (players g ! i) c]\<rparr>
      | (None, d1) \<Rightarrow> g\<lparr>deck := d1\<rparr>)"

definition dealPass :: "game \<Rightarrow> game" where
  "dealPass g = fold dealStep [0..<length (players g)] g"

definition deal :: "game \<Rightarrow> game" where
  "deal g =
     (let cardsPerPlayer = getCardsPerPlayer (length (players g));
          g1 = (dealPass ^^ cardsPerPlayer) g
      in case Deck_draw (deck g1) of
           (Some firstDiscard, d1) \<Rightarrow> g1\<lparr>deck := Deck_discard d1 firstDiscard\<rparr>
         | (None, d1) \<Rightarrow> g1\<lparr>deck := d1\<rparr>)"

definition checkInitialTonk :: "game \<Rightarrow> nat list" where
  "checkInitialTonk g =
     filter (\<lambda>i. hasInitialTonk (calculatePoints (players g ! i))) [0..<length (players g)]"

text \<open>
  The state in which a voided deal is repeated: every player reset, \<open>this.deck = new Deck()\<close>.
\<close>

definition redealState :: "(nat \<Rightarrow> nat) \<Rightarrow> game \<Rightarrow> game" where
  "redealState rnd g = g\<lparr>players := map Player_reset (players g), deck := newDeck rnd\<rparr>"

text \<open>
  \<open>dealAndCheckInitialTonk\<close> calls itself until a deal is not a tie, and each call builds a
  new shuffled deck.  The list holds the random sources of the decks still to be built;
  \<open>None\<close> means the supply ran out before a deal stood.
\<close>

fun dealAndCheckInitialTonk :: "(nat \<Rightarrow> nat) list \<Rightarrow> game \<Rightarrow> game option" where
  "dealAndCheckInitialTonk rnds g =
     (let g1 = collectAntes g;
          g2 = deal g1;
          g3 = g2\<lparr>phase := INITIAL_TONK_CHECK\<rparr>;
          playersWithTonk = checkInitialTonk g3
      in if length playersWithTonk > 1
         then (case rnds of
                 [] \<Rightarrow> None
               | rnd # rest \<Rightarrow> dealAndCheckInitialTonk rest (redealState rnd g3))
         else if length playersWithTonk = 1
         then Some (g3\<lparr>winner := Some (playersWithTonk ! 0),
                       winCondition := Some INITIAL_TONK,
                       phase := GAME_OVER\<rparr>)
         else Some (g3\<lparr>phase := START_OF_TURN\<rparr>))"

declare dealAndCheckInitialTonk.simps [simp del]

text \<open>
  \<open>initialize(playerCount, humanPlayerName)\<close>.  From the environment: \<open>mkId k\<close>, the id of the
  \<open>k\<close>-th player object constructed; \<open>aiNames\<close>, the array \<open>getRandomAINames\<close> returns; and
  the random sources of the decks, the first for the deck built here.  \<open>initialState\<close> is
  the state the assignments of \<open>initialize\<close> build before the call of
  \<open>dealAndCheckInitialTonk\<close>.
\<close>

definition initialState ::
  "(nat \<Rightarrow> nat) \<Rightarrow> (nat \<Rightarrow> string) \<Rightarrow> (nat \<Rightarrow> nat) \<Rightarrow> nat \<Rightarrow> string \<Rightarrow> game" where
  "initialState mkId aiNames rnd playerCount humanPlayerName =
     (let ps0 = newPlayer (mkId 0) humanPlayerName True
                # map (\<lambda>i. newPlayer (mkId (Suc i)) (aiNames i) False) [0..<playerCount - 1];
          scores = fold (\<lambda>p ms. AList.update (pid p) 0 ms) ps0 [];
          ps = map (\<lambda>p. p\<lparr>chips := STARTING_CHIPS, currentBet := 0, isEliminated := False\<rparr>) ps0
      in \<lparr>deck = newDeck rnd, players = ps, currentPlayerIndex = 0, phase = PRE_GAME,
          spreadStore = [], spreadsOnTable = [], winner = None, winCondition = None,
          turnActions = [], hasDrawnThisTurn = False, matchScores = scores,
          pointLimit = MATCH_POINT_LIMIT, matchWinner = None, roundNumber = 1,
          pot = 0, highestBet = 0\<rparr>)"

definition initialize ::
  "(nat \<Rightarrow> nat) \<Rightarrow> (nat \<Rightarrow> string) \<Rightarrow> (nat \<Rightarrow> nat) list \<Rightarrow> nat \<Rightarrow> string \<Rightarrow> game option" where
  "initialize mkId aiNames rnds playerCount humanPlayerName =
     (case rnds of
        [] \<Rightarrow> None
      | rnd # rest \<Rightarrow>
          dealAndCheckInitialTonk rest
            (initialState mkId aiNames rnd playerCount humanPlayerName))"

subsection \<open>Turn operations\<close>

text \<open>
  Each operation returns \<open>Inl\<close> for a thrown error and \<open>Inr\<close> with the new state (and the
  returned value, if any) otherwise.  In the source every \<open>throw\<close> comes before the first
  assignment of the operation, so an error leaves the state as it was.  A \<open>TypeError\<close>
  needs a current seat or a spread that does not exist, or no player at all; no game
  built by \<open>initialize\<close> is in that case.
\<close>

definition proceedToDraw :: "game \<Rightarrow> error + game" where
  "proceedToDraw g =
     (if phase g \<noteq> START_OF_TURN then Inl (Error ''Can only proceed to draw from start of turn'')
      else Inr (g\<lparr>phase := DRAW\<rparr>))"

text \<open>The loop of \<open>endGameStockEmpty\<close>: the pair is \<open>(lowestPlayer, lowestPoints)\<close>.\<close>

definition stockStep :: "player list \<Rightarrow> nat \<Rightarrow> nat \<times> int \<Rightarrow> nat \<times> int" where
  "stockStep ps i acc =
     (let points = calculatePoints (ps ! i)
      in if points < snd acc then (i, points) else acc)"

definition endGameStockEmpty :: "game \<Rightarrow> error + game" where
  "endGameStockEmpty g =
     (if players g = [] then Inl TypeError
      else (let (lowestPlayer, lowestPoints) =
                  fold (stockStep (players g)) [0..<length (players g)]
                       (0, calculatePoints (players g ! 0))
            in Inr (g\<lparr>winner := Some lowestPlayer,
                     winCondition := Some STOCK_EMPTY,
                     phase := GAME_OVER\<rparr>)))"

definition drawFromDeck :: "game \<Rightarrow> error + (game \<times> card option)" where
  "drawFromDeck g =
     (if phase g \<noteq> DRAW then Inl (Error ''Cannot draw - not in draw phase'')
      else (case Deck_draw (deck g) of
              (Some c, d1) \<Rightarrow>
                (if \<not> currentPlayerIndex g < length (players g) then Inl TypeError
                 else Inr (g\<lparr>deck := d1,
                             players := (players g)[currentPlayerIndex g :=
                                          Player_addCard (players g ! currentPlayerIndex g) c],
                             hasDrawnThisTurn := True,
                             turnActions := turnActions g @ [DrawAction FromDeck c],
                             phase := ACTION\<rparr>, Some c))
            | (None, d1) \<Rightarrow>
                (case endGameStockEmpty (g\<lparr>deck := d1\<rparr>) of
                   Inl e \<Rightarrow> Inl e
                 | Inr g1 \<Rightarrow> Inr (g1, None))))"

definition drawFromDiscard :: "game \<Rightarrow> error + (game \<times> card option)" where
  "drawFromDiscard g =
     (if phase g \<noteq> DRAW then Inl (Error ''Cannot draw - not in draw phase'')
      else (case Deck_drawFromDiscard (deck g) of
              (Some c, d1) \<Rightarrow>
                (if \<not> currentPlayerIndex g < length (players g) then Inl TypeError
                 else Inr (g\<lparr>deck := d1,
                             players := (players g)[currentPlayerIndex g :=
                                          Player_addCard (players g ! currentPlayerIndex g) c],
                             hasDrawnThisTurn := True,
                             turnActions := turnActions g @ [DrawAction FromDiscard c],
                             phase := ACTION\<rparr>, Some c))
            | (None, d1) \<Rightarrow> Inr (g\<lparr>deck := d1\<rparr>, None)))"

text \<open>
  The array handed to \<open>laySpread\<close> is either an array of the caller's own (\<open>OwnArray\<close>, as
  the UI and the AI build it) or the current player's \<open>hand\<close> array itself
  (\<open>CurrentHand\<close>).  The two differ in \<open>player.removeCards(cards)\<close>, which in the second
  case splices the array it walks, and in \<open>new Spread(cards, ...)\<close>, which copies the
  array as it is after the removal.  \<open>argCards\<close> is what the array holds when the call
  is made; there is no hand array to pass when there is no current player.  No other
  array of the game is written by \<open>laySpread\<close>, so any other array passed behaves as
  one of the caller's own.
\<close>

datatype cardsArg = OwnArray "card list" | CurrentHand

definition argCards :: "cardsArg \<Rightarrow> game \<Rightarrow> card list option" where
  "argCards arg g =
     (case arg of
        OwnArray xs \<Rightarrow> Some xs
      | CurrentHand \<Rightarrow> map_option hand (getCurrentPlayer g))"

text \<open>
  \<open>laySpread(cards)\<close> returns the new spread object: here its address.  There is no test
  that \<open>removeCards\<close> removed anything.  The action pushed on \<open>turnActions\<close> holds the
  cards the array has when it is pushed.
\<close>

definition laySpread :: "cardsArg \<Rightarrow> game \<Rightarrow> error + (game \<times> nat)" where
  "laySpread arg g =
     (case argCards arg g of
        None \<Rightarrow> Inl TypeError
      | Some cs \<Rightarrow>
     (if phase g \<noteq> ACTION \<and> phase g \<noteq> START_OF_TURN
      then Inl (Error ''Cannot lay spread - not in valid phase'')
      else (let validation = validate cs
            in if \<not> valid validation then Inl (Error ''Invalid spread'')
               else (case getCurrentPlayer g of
                       None \<Rightarrow> Inl TypeError
                     | Some player0 \<Rightarrow>
                         (let (removed, player1) =
                                 (case arg of
                                    OwnArray xs \<Rightarrow> removeCards player0 xs
                                  | CurrentHand \<Rightarrow> removeOwnHand player0);
                              cs1 = (case arg of
                                       OwnArray xs \<Rightarrow> xs
                                     | CurrentHand \<Rightarrow> hand player1);
                              a = length (spreadStore g);
                              sp = \<lparr>scards = cs1, stype = vtype validation,
                                    sowner = currentPlayerIndex g\<rparr>;
                              player2 = addSpread player1 a;
                              g1 = g\<lparr>players := (players g)[currentPlayerIndex g := player2],
                                     spreadStore := spreadStore g @ [sp],
                                     spreadsOnTable := spreadsOnTable g @ [a],
                                     turnActions := turnActions g
                                                    @ [SpreadAction cs1 (vtype validation)]\<rparr>
                          in if hasEmptyHand player2
                             then Inr (g1\<lparr>winner := Some (currentPlayerIndex g),
                                          winCondition := Some TONK,
                                          phase := GAME_OVER\<rparr>, a)
                             else Inr (g1, a))))))"

text \<open>
  \<open>hitSpread(card, spread)\<close>: the spread is given by its address; an address with no object
  stands for \<open>undefined\<close>.  The result of \<open>removeCard\<close> is not looked at.
\<close>

definition hitSpread :: "card \<Rightarrow> nat \<Rightarrow> game \<Rightarrow> error + game" where
  "hitSpread c a g =
     (if phase g \<noteq> ACTION \<and> phase g \<noteq> START_OF_TURN
      then Inl (Error ''Cannot hit spread - not in valid phase'')
      else if \<not> a < length (spreadStore g) then Inl TypeError
      else (case canAddCard (spreadStore g ! a) c of
              Inl e \<Rightarrow> Inl e
            | Inr False \<Rightarrow> Inl (Error ''Cannot add this card to the spread'')
            | Inr True \<Rightarrow>
                (case getCurrentPlayer g of
                   None \<Rightarrow> Inl TypeError
                 | Some player0 \<Rightarrow>
                     (let (removedCard, player1) = removeCard player0 c
                      in case Spread_addCard (spreadStore g ! a) c of
                           Inl e \<Rightarrow> Inl e
                         | Inr sp1 \<Rightarrow>
                             (let g1 = g\<lparr>players := (players g)[currentPlayerIndex g := player1],
                                         spreadStore := (spreadStore g)[a := sp1],
                                         turnActions := turnActions g @ [HitAction c a]\<rparr>
                              in if hasEmptyHand player1
                                 then Inr (g1\<lparr>winner := Some (currentPlayerIndex g),
                                              winCondition := Some TONK,
                                              phase := GAME_OVER\<rparr>)
                                 else Inr g1)))))"

definition endTurn :: "game \<Rightarrow> game" where
  "endTurn g =
     g\<lparr>currentPlayerIndex := (currentPlayerIndex g + 1) mod length (players g),
       hasDrawnThisTurn := False,
       turnActions := [],
       phase := START_OF_TURN\<rparr>"

definition discard :: "card \<Rightarrow> game \<Rightarrow> error + game" where
  "discard c g =
     (if phase g \<noteq> ACTION then Inl (Error ''Cannot discard - not in action phase'')
      else (case getCurrentPlayer g of
              None \<Rightarrow> Inl TypeError
            | Some player0 \<Rightarrow>
                (case removeCard player0 c of
                   (None, player1) \<Rightarrow> Inl (Error ''Card not in player hand'')
                 | (Some removedCard, player1) \<Rightarrow>
                     (let g1 = g\<lparr>players := (players g)[currentPlayerIndex g := player1],
                                 deck := Deck_discard (deck g) removedCard,
                                 turnActions := turnActions g @ [DiscardAction removedCard]\<rparr>
                      in if hasEmptyHand player1
                         then Inr (g1\<lparr>winner := Some (currentPlayerIndex g),
                                      winCondition := Some TONK,
                                      phase := GAME_OVER\<rparr>)
                         else Inr (endTurn g1)))))"

text \<open>
  The loop of \<open>knock\<close>: the pair is \<open>(lowestOtherPlayer, lowestOtherPoints)\<close>, and \<open>None\<close> in
  the second component is the initial \<open>Infinity\<close>, which every point total is below.
\<close>

definition belowLowest :: "int \<Rightarrow> int option \<Rightarrow> bool" where
  "belowLowest points lowest = (case lowest of None \<Rightarrow> True | Some l \<Rightarrow> points < l)"

definition knockStep :: "player list \<Rightarrow> nat \<Rightarrow> nat \<Rightarrow> nat option \<times> int option \<Rightarrow> nat option \<times> int option" where
  "knockStep ps knocker i acc =
     (if i \<noteq> knocker
      then (let points = calculatePoints (ps ! i)
            in if belowLowest points (snd acc) then (Some i, Some points) else acc)
      else acc)"

definition knock :: "game \<Rightarrow> error + game" where
  "knock g =
     (if phase g \<noteq> START_OF_TURN then Inl (Error ''Can only knock at the start of your turn'')
      else (case getCurrentPlayer g of
              None \<Rightarrow> Inl TypeError
            | Some knocker \<Rightarrow>
                (let knockerPoints = calculatePoints knocker;
                     (lowestOtherPlayer, lowestOtherPoints) =
                        fold (knockStep (players g) (currentPlayerIndex g))
                             [0..<length (players g)] (None, None)
                 in if belowLowest knockerPoints lowestOtherPoints
                    then Inr (g\<lparr>winner := Some (currentPlayerIndex g),
                                winCondition := Some KNOCK,
                                phase := GAME_OVER\<rparr>)
                    else Inr (g\<lparr>winner := lowestOtherPlayer,
                                winCondition := Some CAUGHT,
                                phase := GAME_OVER\<rparr>))))"

subsection \<open>Round scoring and the next round\<close>

text \<open>
  The loop of \<open>applyRoundScoring\<close>: the pair is \<open>(matchScores, losers)\<close>; a loser entry is the
  seat, the points added and the new total.  \<open>matchScores[id] || 0\<close> reads a missing entry
  as \<open>0\<close>.
\<close>

definition scoreOf :: "(nat \<times> int) list \<Rightarrow> nat \<Rightarrow> int" where
  "scoreOf ms i = (case map_of ms i of None \<Rightarrow> 0 | Some v \<Rightarrow> v)"

definition scoringStep ::
  "player list \<Rightarrow> nat option \<Rightarrow> nat \<Rightarrow> (nat \<times> int) list \<times> (nat \<times> int \<times> int) list
     \<Rightarrow> (nat \<times> int) list \<times> (nat \<times> int \<times> int) list" where
  "scoringStep ps w i acc =
     (if Some i \<noteq> w
      then (let points = calculatePoints (ps ! i);
                ms1 = AList.update (pid (ps ! i)) (scoreOf (fst acc) (pid (ps ! i)) + points) (fst acc)
            in (ms1, snd acc @ [(i, points, scoreOf ms1 (pid (ps ! i)))]))
      else acc)"

definition applyRoundScoring :: "game \<Rightarrow> game \<times> (nat \<times> int \<times> int) list" where
  "applyRoundScoring g =
     (let (ms, losers) = fold (scoringStep (players g) (winner g)) [0..<length (players g)]
                              (matchScores g, [])
      in (g\<lparr>matchScores := ms\<rparr>, losers))"

text \<open>
  \<open>startNextRound\<close> builds a new deck (the first random source) and deals; the remaining
  sources serve the redeals.  \<open>nextRoundState\<close> is the state its assignments build before
  the call of \<open>dealAndCheckInitialTonk\<close>; \<open>currentPlayerIndex\<close> is not among them.
\<close>

definition nextRoundState :: "(nat \<Rightarrow> nat) \<Rightarrow> game \<Rightarrow> game" where
  "nextRoundState rnd g =
     g\<lparr>roundNumber := roundNumber g + 1,
       players := map (\<lambda>p. resetBet (Player_reset p)) (players g),
       spreadsOnTable := [],
       winner := None,
       winCondition := None,
       hasDrawnThisTurn := False,
       turnActions := [],
       pot := 0,
       highestBet := 0,
       deck := newDeck rnd\<rparr>"

definition startNextRound :: "(nat \<Rightarrow> nat) list \<Rightarrow> game \<Rightarrow> game option" where
  "startNextRound rnds g =
     (case rnds of
        [] \<Rightarrow> None
      | rnd # rest \<Rightarrow> dealAndCheckInitialTonk rest (nextRoundState rnd g))"

definition reset :: "game \<Rightarrow> game" where
  "reset g =
     g\<lparr>players := map Player_reset (players g),
       spreadsOnTable := [],
       winner := None,
       winCondition := None,
       currentPlayerIndex := 0,
       hasDrawnThisTurn := False,
       turnActions := [],
       phase := PRE_GAME\<rparr>"

section \<open>Notions used in the statements\<close>

text \<open>A card list is uniform in rank (suit) when any two of its cards agree on it.\<close>

definition uniformRank :: "card list \<Rightarrow> bool" where
  "uniformRank cs = (\<forall>c \<in> set cs. \<forall>d \<in> set cs. rank c = rank d)"

definition uniformSuit :: "card list \<Rightarrow> bool" where
  "uniformSuit cs = (\<forall>c \<in> set cs. \<forall>d \<in> set cs. suit c = suit d)"

text \<open>
  The rank indices are contiguous when, put in ascending order, they are exactly the
  integers from the lowest to the highest, each once.
\<close>

definition contiguousRankIndices :: "card list \<Rightarrow> bool" where
  "contiguousRankIndices cs =
     (cs \<noteq> [] \<and>
      sort (map getRankIndex cs)
        = [Min (set (map getRankIndex cs)) .. Max (set (map getRankIndex cs))])"

text \<open>Adjacent entries of an integer list go up by exactly one.\<close>

fun stepsOfOne :: "int list \<Rightarrow> bool" where
  "stepsOfOne (p # c # cs) = (c = p + 1 \<and> stepsOfOne (c # cs))"
| "stepsOfOne _ = True"

text \<open>
  All the cards of a game: draw pile, discard pile, every hand, and the cards of every
  spread on the table.
\<close>

definition allCards :: "game \<Rightarrow> card multiset" where
  "allCards g =
     mset (cards (deck g)) + mset (discardPile (deck g))
     + sum_list (map (\<lambda>p. mset (hand p)) (players g))
     + sum_list (map (\<lambda>a. mset (scards (spreadStore g ! a))) (spreadsOnTable g))"

text \<open>All the chips of a game: every player's chips and the pot.\<close>

definition chipsTotal :: "game \<Rightarrow> int" where
  "chipsTotal g = sum_list (map chips (players g)) + pot g"

text \<open>The ante \<open>collectAntes\<close> takes from a player, and the player afterwards.\<close>

definition anteOf :: "player \<Rightarrow> int" where
  "anteOf p = (if isEliminated p then 0 else min ANTE_AMOUNT (chips p))"

definition afterAnte :: "player \<Rightarrow> player" where
  "afterAnte p = (if isEliminated p then p else snd (bet (resetBet p) ANTE_AMOUNT))"

text \<open>The state a deal attempt is judged in: antes collected, cards dealt.\<close>

definition dealAttempt :: "game \<Rightarrow> game" where
  "dealAttempt g = (deal (collectAntes g))\<lparr>phase := INITIAL_TONK_CHECK\<rparr>"

text \<open>The seats whose hands total 49 or 50 points, in seat order.\<close>

definition tonkSeats :: "game \<Rightarrow> nat list" where
  "tonkSeats g =
     filter (\<lambda>i. calculatePoints (players g ! i) = 49 \<or> calculatePoints (players g ! i) = 50)
            [0..<length (players g)]"

text \<open>How many copies of a card a game holds.\<close>

definition copiesOf :: "card \<Rightarrow> game \<Rightarrow> nat" where
  "copiesOf c g = count (allCards g) c"

text \<open>The hand of the player in a given seat.\<close>

definition handOf :: "nat \<Rightarrow> game \<Rightarrow> card list" where
  "handOf i g = hand (players g ! i)"

text \<open>
  What dealing leaves alone: every player's chips and elimination flag, the pot, and
  the seat whose turn it is.
\<close>

definition ledger :: "game \<Rightarrow> (int \<times> bool) list \<times> int \<times> nat" where
  "ledger g = (map (\<lambda>p. (chips p, isEliminated p)) (players g), pot g, currentPlayerIndex g)"

text \<open>
  What dealing and betting leave alone on the table: the spread store, the spreads on
  the table, the current seat and the number of players.
\<close>

definition tableView :: "game \<Rightarrow> spread list \<times> nat list \<times> nat \<times> nat" where
  "tableView g = (spreadStore g, spreadsOnTable g, currentPlayerIndex g, length (players g))"

text \<open>
  The table is sound when no spread is on it twice, every spread on it exists, and the
  current seat exists.  A game is conserved when, besides, its cards are the 52 cards
  of the deck, each once.
\<close>

definition tableSound :: "game \<Rightarrow> bool" where
  "tableSound g =
     (distinct (spreadsOnTable g)
      \<and> list_all (\<lambda>a. a < length (spreadStore g)) (spreadsOnTable g)
      \<and> currentPlayerIndex g < length (players g))"

definition conserved :: "game \<Rightarrow> bool" where
  "conserved g = (allCards g = mset generateDeck \<and> tableSound g)"

text \<open>
  The states of the runs that start with \<open>initialize\<close> and go on by the operations below
  when they return, where \<open>laySpread\<close> is given an array of the caller's own that holds
  cards of the current player's hand (as many copies as the hand has) and \<open>hitSpread\<close> is
  given a card of that hand and a spread of the table.  \<open>laySpread\<close> on the hand array
  itself and \<open>reset\<close> are not among these operations.
\<close>

inductive fairPlay :: "game \<Rightarrow> bool" where
  started: "initialize mkId aiNames rnds n nm = Some g \<Longrightarrow> fairPlay g"
| proceeded: "fairPlay g \<Longrightarrow> proceedToDraw g = Inr g' \<Longrightarrow> fairPlay g'"
| drewFromDeck: "fairPlay g \<Longrightarrow> drawFromDeck g = Inr (g', r) \<Longrightarrow> fairPlay g'"
| drewFromDiscard: "fairPlay g \<Longrightarrow> drawFromDiscard g = Inr (g', r) \<Longrightarrow> fairPlay g'"
| laid: "fairPlay g \<Longrightarrow> getCurrentPlayer g = Some p \<Longrightarrow> mset cs \<subseteq># mset (hand p) \<Longrightarrow>
         laySpread (OwnArray cs) g = Inr (g', a) \<Longrightarrow> fairPlay g'"
| hit: "fairPlay g \<Longrightarrow> getCurrentPlayer g = Some p \<Longrightarrow> c \<in> set (hand p) \<Longrightarrow>
        a \<in> set (spreadsOnTable g) \<Longrightarrow> hitSpread c a g = Inr g' \<Longrightarrow> fairPlay g'"
| discarded: "fairPlay g \<Longrightarrow> discard c g = Inr g' \<Longrightarrow> fairPlay g'"
| knocked: "fairPlay g \<Longrightarrow> knock g = Inr g' \<Longrightarrow> fairPlay g'"
| scored: "fairPlay g \<Longrightarrow> applyRoundScoring g = (g', losers) \<Longrightarrow> fairPlay g'"
| betPlaced: "fairPlay g \<Longrightarrow> placeBet i amount g = Inr (g', r) \<Longrightarrow> fairPlay g'"
| potAwarded: "fairPlay g \<Longrightarrow> awardPot w g = Inr (g', r) \<Longrightarrow> fairPlay g'"
| nextRound: "fairPlay g \<Longrightarrow> startNextRound rnds g = Some g' \<Longrightarrow> fairPlay g'"

section \<open>Concrete games\<close>

text \<open>
  Two random sources: one that leaves the generated deck in order (every swap is of a
  position with itself), and one that moves ten ten-point cards to the top of the stock,
  so that two players are both dealt fifty points.
\<close>

definition identityRnd :: "nat \<Rightarrow> nat" where
  "identityRnd i = i"

definition riggedRnd :: "nat \<Rightarrow> nat" where
  "riggedRnd i =
     (if i = 47 then 38 else if i = 46 then 37 else if i = 45 then 36 else if i = 44 then 35
      else if i = 43 then 25 else if i = 42 then 24 else i)"

text \<open>
  A random source that deals fifty points to seat 0 only: as \<open>riggedRnd\<close>, but the last of
  the ten cards stays a four.
\<close>

definition soloRnd :: "nat \<Rightarrow> nat" where
  "soloRnd i =
     (if i = 47 then 38 else if i = 46 then 37 else if i = 45 then 36 else if i = 44 then 35
      else if i = 43 then 25 else i)"

definition seatId :: "nat \<Rightarrow> nat" where
  "seatId k = k"

definition seatName :: "nat \<Rightarrow> string" where
  "seatName i = ''Alex''"

text \<open>A match of two players started on the ordered deck.\<close>

definition firstRound :: "game option" where
  "firstRound = initialize seatId seatName [identityRnd] 2 ''You''"

text \<open>A game in a given phase whose players hold the given hands, with an empty stock.\<close>

definition gameWithHands :: "phase \<Rightarrow> nat \<Rightarrow> card list list \<Rightarrow> game" where
  "gameWithHands ph cur hands =
     \<lparr>deck = \<lparr>cards = [], discardPile = []\<rparr>,
      players = map (\<lambda>i. (newPlayer i ''P'' (i = 0))\<lparr>hand := hands ! i, chips := 1000\<rparr>)
                    [0..<length hands],
      currentPlayerIndex = cur, phase = ph,
      spreadStore = [], spreadsOnTable = [], winner = None, winCondition = None,
      turnActions = [], hasDrawnThisTurn = False,
      matchScores = map (\<lambda>i. (i, 0)) [0..<length hands],
      pointLimit = MATCH_POINT_LIMIT, matchWinner = None, roundNumber = 1,
      pot = 0, highestBet = 0\<rparr>"

text \<open>A game about to deal from the rigged deck to two players who have no chips left.\<close>

definition brokeGame :: game where
  "brokeGame =
     (gameWithHands PRE_GAME 0 [[], []])
       \<lparr>deck := newDeck riggedRnd,
        players := map (\<lambda>p. p\<lparr>chips := 0\<rparr>) (players (gameWithHands PRE_GAME 0 [[], []]))\<rparr>"

text \<open>
  The first round played on: seat 0 goes to the draw phase, draws the two of spades
  from the stock and discards it; seat 1 knocks (38 points against 41) and wins; the
  next round is started on an ordered deck.
\<close>

definition secondRound :: "game option" where
  "secondRound =
     (case firstRound of
        None \<Rightarrow> None
      | Some g0 \<Rightarrow>
          (case proceedToDraw g0 of
             Inl e \<Rightarrow> None
           | Inr g1 \<Rightarrow>
               (case drawFromDeck g1 of
                  Inl e \<Rightarrow> None
                | Inr (g2, c) \<Rightarrow>
                    (case discard (Card Spades R2) g2 of
                       Inl e \<Rightarrow> None
                     | Inr g3 \<Rightarrow>
                         (case knock g3 of
                            Inl e \<Rightarrow> None
                          | Inr g4 \<Rightarrow> startNextRound [identityRnd] g4)))))"

text \<open>
  A round that seat 0 has won, with match scores of 7 and 20 for seats 0 and 1 and no
  entry for seat 2; the hands are worth 5, 13 and 4 points.
\<close>

definition wonRound :: game where
  "wonRound =
     (gameWithHands GAME_OVER 0
        [[Card Spades R5], [Card Hearts King, Card Diamonds R3], [Card Clubs R4]])
       \<lparr>winner := Some 0, matchScores := [(0, 7), (1, 20)]\<rparr>"

text \<open>
  A match of two players whose constructors drew the same id, started on the ordered
  deck.  Seat 0 (41 points) knocks at once and is caught by seat 1 (38 points); then
  the round is scored.
\<close>

definition oneId :: "nat \<Rightarrow> nat" where
  "oneId k = 0"

definition sharedIdKnock :: "game option" where
  "sharedIdKnock =
     (case initialize oneId seatName [identityRnd] 2 ''You'' of
        None \<Rightarrow> None
      | Some g0 \<Rightarrow> (case knock g0 of Inl e \<Rightarrow> None | Inr g1 \<Rightarrow> Some g1))"

definition sharedIdScored :: "game option" where
  "sharedIdScored = map_option (\<lambda>g. fst (applyRoundScoring g)) sharedIdKnock"

text \<open>
  Four hands worth 48, 49, 50 and 51 points, and a game in the action phase whose
  current player holds exactly a book of sevens.
\<close>

definition fourTotals :: game where
  "fourTotals =
     gameWithHands INITIAL_TONK_CHECK 0
       [[Card Spades King, Card Spades Queen, Card Spades Jack, Card Spades R10, Card Hearts R8],
        [Card Spades King, Card Spades Queen, Card Spades Jack, Card Spades R10, Card Hearts R9],
        [Card Spades King, Card Hearts King, Card Diamonds King, Card Clubs King, Card Spades R10],
        [Card Spades King, Card Hearts King, Card Diamonds King, Card Clubs King, Card Spades R10,
         Card Spades Ace]]"

definition bookInHand :: game where
  "bookInHand =
     gameWithHands ACTION 0
       [[Card Spades R7, Card Hearts R7, Card Diamonds R7], [Card Clubs R5]]"

text \<open>
  The first round, in which seat 0 (holding K, J, 9, 7, 5 of spades) lays three aces
  that are in the stock; and then hits that book with the ace of spades, which is in
  the stock too.
\<close>

definition laidFromNowhere :: "(error + game) option" where
  "laidFromNowhere =
     (case firstRound of
        None \<Rightarrow> None
      | Some g0 \<Rightarrow>
          Some (case laySpread (OwnArray [Card Hearts Ace, Card Diamonds Ace, Card Clubs Ace]) g0 of
                  Inl e \<Rightarrow> Inl e
                | Inr (g1, a) \<Rightarrow> Inr g1))"

definition hitFromNowhere :: "(error + game) option" where
  "hitFromNowhere =
     (case laidFromNowhere of
        Some (Inr g1) \<Rightarrow> Some (hitSpread (Card Spades Ace) 0 g1)
      | _ \<Rightarrow> None)"

section \<open>Spread validation\<close>

lemma consecutiveRanks_stepsOfOne: "consecutiveRanks cs = stepsOfOne (map getRankIndex cs)"
  by (induction cs rule: consecutiveRanks.induct) auto

lemma stepsOfOne_interval:
  "stepsOfOne xs \<Longrightarrow> xs \<noteq> [] \<Longrightarrow> xs = [hd xs .. last xs]"
proof (induction xs rule: stepsOfOne.induct)
  case (1 p c cs)
  define l where "l = last (c # cs)"
  from 1 have ih: "c # cs = [c .. l]" and c: "c = p + 1" by (auto simp: l_def)
  have "c \<le> l"
  proof (rule ccontr)
    assume "\<not> c \<le> l"
    then have "[c .. l] = []" by simp
    with ih show False by simp
  qed
  then have "[p .. l] = p # [c .. l]"
    using c by (simp add: upto_rec1)
  with ih have e: "p # c # cs = [p .. l]" by simp
  have h: "[hd (p # c # cs) .. last (p # c # cs)] = [p .. l]" by (simp add: l_def)
  show ?case unfolding h by (rule e)
qed auto

lemma map_insort_key_key: "map f (insort_key f x xs) = insort (f x) (map f xs)"
  by (induction xs) auto

lemma map_sortByRank: "map getRankIndex (sortByRank cs) = sort (map getRankIndex cs)"
  unfolding sortByRank_def by (induction cs) (auto simp: map_insort_key_key)

lemma Min_interval: "a \<le> b \<Longrightarrow> Min (set [a..b]) = (a::int)"
  by (intro Min_eqI) auto

lemma Max_interval: "a \<le> b \<Longrightarrow> Max (set [a..b]) = (b::int)"
  by (intro Max_eqI) auto

lemma consecutive_contiguous:
  assumes "consecutiveRanks (sortByRank cs)" and "cs \<noteq> []"
  shows "contiguousRankIndices cs"
proof -
  let ?is = "sort (map getRankIndex cs)"
  have ne: "?is \<noteq> []" using assms(2) by (metis length_sort length_map length_0_conv)
  have "stepsOfOne ?is" using assms(1) by (simp add: consecutiveRanks_stepsOfOne map_sortByRank)
  then have eq: "?is = [hd ?is .. last ?is]" using ne by (rule stepsOfOne_interval)
  have le: "hd ?is \<le> last ?is"
  proof (rule ccontr)
    assume "\<not> hd ?is \<le> last ?is"
    then have "[hd ?is .. last ?is] = []" by simp
    with eq ne show False by simp
  qed
  have s: "set (map getRankIndex cs) = set [hd ?is .. last ?is]"
    using eq by (metis set_sort)
  have "Min (set (map getRankIndex cs)) = hd ?is" "Max (set (map getRankIndex cs)) = last ?is"
    unfolding s using le Min_interval Max_interval by blast+
  with eq assms(2) show ?thesis unfolding contiguousRankIndices_def by simp
qed

lemma uniformRank_not_consecutive:
  assumes "uniformRank cs" and "length cs \<ge> 2"
  shows "\<not> consecutiveRanks (sortByRank cs)"
proof -
  obtain p c rest where s: "sortByRank cs = p # c # rest"
    using assms(2) unfolding sortByRank_def
    by (metis length_sort Suc_le_length_iff numeral_2_eq_2)
  have "p \<in> set cs" "c \<in> set cs"
    using s unfolding sortByRank_def by (metis set_sort list.set_intros(1) list.set_intros(2))+
  then have "rank p = rank c" using assms(1) unfolding uniformRank_def by blast
  then show ?thesis using s by (simp add: getRankIndex_def)
qed

lemma isValidBook_shape:
  "isValidBook cs \<Longrightarrow> uniformRank cs \<and> 3 \<le> length cs \<and> length cs \<le> 4"
  unfolding isValidBook_def uniformRank_def MIN_SPREAD_SIZE_def
  by (auto simp: list_all_iff split: if_splits)

lemma isValidRun_shape:
  "isValidRun cs \<Longrightarrow> uniformSuit cs \<and> 3 \<le> length cs \<and> contiguousRankIndices cs"
  unfolding isValidRun_def uniformSuit_def MIN_SPREAD_SIZE_def
  by (auto simp: list_all_iff intro!: consecutive_contiguous split: if_splits)

text \<open>
  C6.  \<open>validate\<close> answers \<open>{valid: false, type: null}\<close> for fewer than three cards, for cards
  that are neither uniform in rank nor uniform in suit with contiguous rank indices,
  and for five or more cards of one rank; and no card list passes both \<open>isValidBook\<close> and
  \<open>isValidRun\<close>, so the type \<open>validate\<close> returns is the only one that fits.
\<close>

theorem validate_rejects:
  "(length cs < 3 \<longrightarrow> validate cs = Validation False None)
   \<and> (\<not> uniformRank cs \<and> \<not> (uniformSuit cs \<and> contiguousRankIndices cs)
        \<longrightarrow> validate cs = Validation False None)
   \<and> (uniformRank cs \<and> 5 \<le> length cs \<longrightarrow> validate cs = Validation False None)
   \<and> \<not> (isValidBook cs \<and> isValidRun cs)"
proof -
  have a: "validate cs = Validation False None" if "\<not> isValidBook cs" "\<not> isValidRun cs"
    using that by (simp add: validate_def)
  have 1: "length cs < 3 \<longrightarrow> validate cs = Validation False None"
    using isValidBook_shape isValidRun_shape a by fastforce
  have 2: "\<not> uniformRank cs \<and> \<not> (uniformSuit cs \<and> contiguousRankIndices cs)
        \<longrightarrow> validate cs = Validation False None"
    using isValidBook_shape isValidRun_shape a by blast
  have nr: "\<not> isValidRun cs" if "uniformRank cs" "2 \<le> length cs"
    using uniformRank_not_consecutive[OF that] by (auto simp: isValidRun_def)
  have 3: "uniformRank cs \<and> 5 \<le> length cs \<longrightarrow> validate cs = Validation False None"
    using isValidBook_shape nr a by fastforce
  have 4: "\<not> (isValidBook cs \<and> isValidRun cs)"
    using isValidBook_shape nr by fastforce
  show ?thesis using 1 2 3 4 by blast
qed

lemma rank_index_simps:
  "getRankIndex (Card s Ace) = 0" "getRankIndex (Card s R2) = 1" "getRankIndex (Card s R3) = 2"
  "getRankIndex (Card s R4) = 3" "getRankIndex (Card s R5) = 4" "getRankIndex (Card s R6) = 5"
  "getRankIndex (Card s R7) = 6" "getRankIndex (Card s R8) = 7" "getRankIndex (Card s R9) = 8"
  "getRankIndex (Card s R10) = 9" "getRankIndex (Card s Jack) = 10"
  "getRankIndex (Card s Queen) = 11" "getRankIndex (Card s King) = 12"
  by (simp_all add: getRankIndex_def RANKS_def)

theorem validate_rejects_witness:
  "length [Card Spades R4, Card Spades R5] < 3
   \<and> validate [Card Spades R4, Card Spades R5] = Validation False None
   \<and> \<not> uniformRank [Card Spades R4, Card Spades R5, Card Spades R7]
   \<and> \<not> (uniformSuit [Card Spades R4, Card Spades R5, Card Spades R7]
        \<and> contiguousRankIndices [Card Spades R4, Card Spades R5, Card Spades R7])
   \<and> validate [Card Spades R4, Card Spades R5, Card Spades R7] = Validation False None
   \<and> \<not> uniformRank [Card Spades R4, Card Hearts R5, Card Clubs R6]
   \<and> validate [Card Spades R4, Card Hearts R5, Card Clubs R6] = Validation False None
   \<and> uniformRank [Card Spades R7, Card Hearts R7, Card Clubs R7, Card Diamonds R7, Card Spades R7]
   \<and> validate [Card Spades R7, Card Hearts R7, Card Clubs R7, Card Diamonds R7, Card Spades R7]
       = Validation False None"
proof -
  have u1: "\<not> uniformRank [Card Spades R4, Card Spades R5, Card Spades R7]"
    by (simp add: uniformRank_def)
  have c1: "\<not> contiguousRankIndices [Card Spades R4, Card Spades R5, Card Spades R7]"
    by (simp add: contiguousRankIndices_def rank_index_simps upto_rec1)
  have u2: "\<not> uniformRank [Card Spades R4, Card Hearts R5, Card Clubs R6]"
    by (simp add: uniformRank_def)
  have s2: "\<not> uniformSuit [Card Spades R4, Card Hearts R5, Card Clubs R6]"
    by (simp add: uniformSuit_def)
  have u3: "uniformRank [Card Spades R7, Card Hearts R7, Card Clubs R7, Card Diamonds R7, Card Spades R7]"
    by (simp add: uniformRank_def)
  show ?thesis
    using u1 c1 u2 s2 u3
      validate_rejects [of "[Card Spades R4, Card Spades R5]"]
      validate_rejects [of "[Card Spades R4, Card Spades R5, Card Spades R7]"]
      validate_rejects [of "[Card Spades R4, Card Hearts R5, Card Clubs R6]"]
      validate_rejects [of "[Card Spades R7, Card Hearts R7, Card Clubs R7, Card Diamonds R7, Card Spades R7]"]
    by simp
qed

section \<open>Hitting a spread\<close>

lemma sorted_hd_Min: "sorted xs \<Longrightarrow> xs \<noteq> [] \<Longrightarrow> hd xs = Min (set xs)"
  by (cases xs) (auto intro!: Min_eqI [symmetric])

lemma sorted_last_Max: "sorted xs \<Longrightarrow> xs \<noteq> [] \<Longrightarrow> last xs = Max (set xs)"
proof (induction xs)
  case (Cons a xs)
  show ?case
  proof (cases "xs = []")
    case False
    with Cons have l: "last xs = Max (set xs)" by simp
    have "a \<le> Max (set xs)" using Cons.prems(1) False l
      by (metis last_in_set list.set_intros(1) sorted_simps(2))
    then show ?thesis using False l by (simp add: max_absorb2)
  qed simp
qed simp

lemma sort_not_Nil: "cs \<noteq> [] \<Longrightarrow> sort (map f cs) \<noteq> []"
  by (metis length_sort length_map length_0_conv)

lemma sortByRank_lowest:
  assumes "cs \<noteq> []"
  shows "getRankIndex (sortByRank cs ! 0) = Min (set (map getRankIndex cs))"
proof -
  have ne: "sortByRank cs \<noteq> []"
    using assms by (metis sortByRank_def length_sort length_0_conv)
  have "getRankIndex (sortByRank cs ! 0) = hd (map getRankIndex (sortByRank cs))"
    using ne by (simp add: hd_conv_nth)
  also have "\<dots> = hd (sort (map getRankIndex cs))" by (simp add: map_sortByRank)
  also have "\<dots> = Min (set (sort (map getRankIndex cs)))"
    using assms by (intro sorted_hd_Min sort_not_Nil) auto
  finally show ?thesis by simp
qed

lemma sortByRank_highest:
  assumes "cs \<noteq> []"
  shows "getRankIndex (sortByRank cs ! (length (sortByRank cs) - 1))
           = Max (set (map getRankIndex cs))"
proof -
  have ne: "sortByRank cs \<noteq> []"
    using assms by (metis sortByRank_def length_sort length_0_conv)
  have "getRankIndex (sortByRank cs ! (length (sortByRank cs) - 1))
          = last (map getRankIndex (sortByRank cs))"
    using ne by (simp add: last_conv_nth)
  also have "\<dots> = last (sort (map getRankIndex cs))" by (simp add: map_sortByRank)
  also have "\<dots> = Max (set (sort (map getRankIndex cs)))"
    using assms by (intro sorted_last_Max sort_not_Nil) auto
  finally show ?thesis by simp
qed

text \<open>
  C7.  For a spread that holds at least one card: a book accepts a card exactly when it
  has fewer than four cards and the card has the rank of the book (of its first card); a
  run accepts a card exactly when the card has the suit of the run (of its first card)
  and its rank index is one below the lowest or one above the highest rank index of the
  run.
\<close>

theorem canAddCard_spec:
  "scards s \<noteq> [] \<longrightarrow>
     (stype s = Some Book \<longrightarrow>
        canAddCard s c = Inr (length (scards s) < 4 \<and> rank c = rank (hd (scards s))))
   \<and> (stype s = Some Run \<longrightarrow>
        canAddCard s c =
          Inr (suit c = suit (hd (scards s))
               \<and> (getRankIndex c = Min (set (map getRankIndex (scards s))) - 1
                  \<or> getRankIndex c = Max (set (map getRankIndex (scards s))) + 1)))"
proof (intro impI conjI)
  assume ne: "scards s \<noteq> []" and b: "stype s = Some Book"
  then obtain c0 rest where "scards s = c0 # rest" by (cases "scards s") auto
  then show "canAddCard s c = Inr (length (scards s) < 4 \<and> rank c = rank (hd (scards s)))"
    using b by (auto simp: canAddCard_def canAddToBook_def)
next
  assume ne: "scards s \<noteq> []" and r: "stype s = Some Run"
  then obtain c0 rest where cs: "scards s = c0 # rest" by (cases "scards s") auto
  have lo: "getRankIndex (sortByRank (scards s) ! 0) = Min (set (map getRankIndex (scards s)))"
    using ne by (rule sortByRank_lowest)
  have hi: "getRankIndex (sortByRank (scards s) ! (length (sortByRank (scards s)) - 1))
              = Max (set (map getRankIndex (scards s)))"
    using ne by (rule sortByRank_highest)
  have "canAddCard s c = canAddToRun s c" using r by (simp add: canAddCard_def)
  also have "\<dots> = Inr (suit c = suit (hd (scards s))
               \<and> (getRankIndex c = Min (set (map getRankIndex (scards s))) - 1
                  \<or> getRankIndex c = Max (set (map getRankIndex (scards s))) + 1))"
    unfolding canAddToRun_def Let_def lo hi using cs by simp
  finally show "canAddCard s c =
          Inr (suit c = suit (hd (scards s))
               \<and> (getRankIndex c = Min (set (map getRankIndex (scards s))) - 1
                  \<or> getRankIndex c = Max (set (map getRankIndex (scards s))) + 1))" .
qed

theorem canAddCard_spec_witness:
  "scards \<lparr>scards = [Card Spades R5, Card Spades R6, Card Spades R7], stype = Some Run, sowner = 0\<rparr> \<noteq> []
   \<and> canAddCard \<lparr>scards = [Card Spades R5, Card Spades R6, Card Spades R7], stype = Some Run, sowner = 0\<rparr>
        (Card Spades R4) = Inr True
   \<and> canAddCard \<lparr>scards = [Card Spades R5, Card Spades R6, Card Spades R7], stype = Some Run, sowner = 0\<rparr>
        (Card Spades R8) = Inr True
   \<and> canAddCard \<lparr>scards = [Card Spades R5, Card Spades R6, Card Spades R7], stype = Some Run, sowner = 0\<rparr>
        (Card Hearts R6) = Inr False
   \<and> canAddCard \<lparr>scards = [Card Spades R5, Card Spades R6, Card Spades R7], stype = Some Run, sowner = 0\<rparr>
        (Card Spades R9) = Inr False
   \<and> canAddCard \<lparr>scards = [Card Spades R5, Card Spades R6, Card Spades R7], stype = Some Run, sowner = 0\<rparr>
        (Card Spades R6) = Inr False
   \<and> canAddCard \<lparr>scards = [Card Spades R7, Card Hearts R7, Card Clubs R7], stype = Some Book, sowner = 0\<rparr>
        (Card Diamonds R7) = Inr True
   \<and> canAddCard \<lparr>scards = [Card Spades R7, Card Hearts R7, Card Clubs R7], stype = Some Book, sowner = 0\<rparr>
        (Card Diamonds R8) = Inr False
   \<and> canAddCard \<lparr>scards = [Card Spades R7, Card Hearts R7, Card Clubs R7, Card Diamonds R7],
                  stype = Some Book, sowner = 0\<rparr>
        (Card Spades R7) = Inr False"
  using
    canAddCard_spec [of "\<lparr>scards = [Card Spades R5, Card Spades R6, Card Spades R7], stype = Some Run, sowner = 0\<rparr>" "Card Spades R4"]
    canAddCard_spec [of "\<lparr>scards = [Card Spades R5, Card Spades R6, Card Spades R7], stype = Some Run, sowner = 0\<rparr>" "Card Spades R8"]
    canAddCard_spec [of "\<lparr>scards = [Card Spades R5, Card Spades R6, Card Spades R7], stype = Some Run, sowner = 0\<rparr>" "Card Hearts R6"]
    canAddCard_spec [of "\<lparr>scards = [Card Spades R5, Card Spades R6, Card Spades R7], stype = Some Run, sowner = 0\<rparr>" "Card Spades R9"]
    canAddCard_spec [of "\<lparr>scards = [Card Spades R5, Card Spades R6, Card Spades R7], stype = Some Run, sowner = 0\<rparr>" "Card Spades R6"]
    canAddCard_spec [of "\<lparr>scards = [Card Spades R7, Card Hearts R7, Card Clubs R7], stype = Some Book, sowner = 0\<rparr>" "Card Diamonds R7"]
    canAddCard_spec [of "\<lparr>scards = [Card Spades R7, Card Hearts R7, Card Clubs R7], stype = Some Book, sowner = 0\<rparr>" "Card Diamonds R8"]
    canAddCard_spec [of "\<lparr>scards = [Card Spades R7, Card Hearts R7, Card Clubs R7, Card Diamonds R7], stype = Some Book, sowner = 0\<rparr>" "Card Spades R7"]
  by (simp add: rank_index_simps)

section \<open>The AI's knock decision\<close>

text \<open>
  C9.  \<open>shouldKnock\<close> is true whenever the hand's points are at most 3; for 4 or 5 points it
  is true exactly when \<open>findPossibleSpreads\<close> finds no spread in the hand or the hand has
  at most two cards; above 5 points it is false.
\<close>

theorem shouldKnock_spec:
  "(calculatePoints p \<le> 3 \<longrightarrow> shouldKnock p)
   \<and> (calculatePoints p = 4 \<or> calculatePoints p = 5 \<longrightarrow>
        shouldKnock p = (length (findPossibleSpreads (hand p)) = 0 \<or> length (hand p) \<le> 2))
   \<and> (calculatePoints p > 5 \<longrightarrow> \<not> shouldKnock p)"
  by (auto simp: shouldKnock_def countSpreadPotential_def Let_def)

lemma value_simps:
  "calculateValue (Card s Ace) = 1" "calculateValue (Card s R2) = 2"
  "calculateValue (Card s R3) = 3" "calculateValue (Card s R4) = 4"
  "calculateValue (Card s R5) = 5" "calculateValue (Card s R6) = 6"
  "calculateValue (Card s R7) = 7" "calculateValue (Card s R8) = 8"
  "calculateValue (Card s R9) = 9" "calculateValue (Card s R10) = 10"
  "calculateValue (Card s Jack) = 10" "calculateValue (Card s Queen) = 10"
  "calculateValue (Card s King) = 10"
  by (simp_all add: calculateValue_def)

lemma book_of_aces:
  "findPossibleSpreads [Card Spades Ace, Card Hearts Ace, Card Diamonds Ace, Card Clubs R2]
     = [(Book, [Card Spades Ace, Card Hearts Ace, Card Diamonds Ace])]"
  by code_simp

lemma no_spread_in_two: "findPossibleSpreads [Card Spades R2, Card Hearts R3] = []"
  by code_simp

theorem shouldKnock_spec_witness:
  "calculatePoints ((newPlayer 1 ''Alex'' False)\<lparr>hand := [Card Spades Ace, Card Hearts R2]\<rparr>) \<le> 3
   \<and> shouldKnock ((newPlayer 1 ''Alex'' False)\<lparr>hand := [Card Spades Ace, Card Hearts R2]\<rparr>)
   \<and> calculatePoints ((newPlayer 1 ''Alex'' False)
        \<lparr>hand := [Card Spades Ace, Card Hearts Ace, Card Diamonds Ace, Card Clubs R2]\<rparr>) = 5
   \<and> \<not> shouldKnock ((newPlayer 1 ''Alex'' False)
        \<lparr>hand := [Card Spades Ace, Card Hearts Ace, Card Diamonds Ace, Card Clubs R2]\<rparr>)
   \<and> calculatePoints ((newPlayer 1 ''Alex'' False)\<lparr>hand := [Card Spades R2, Card Hearts R3]\<rparr>) = 5
   \<and> shouldKnock ((newPlayer 1 ''Alex'' False)\<lparr>hand := [Card Spades R2, Card Hearts R3]\<rparr>)
   \<and> calculatePoints ((newPlayer 1 ''Alex'' False)\<lparr>hand := [Card Spades R6]\<rparr>) > 5
   \<and> \<not> shouldKnock ((newPlayer 1 ''Alex'' False)\<lparr>hand := [Card Spades R6]\<rparr>)"
  using
    shouldKnock_spec [of "(newPlayer 1 ''Alex'' False)\<lparr>hand := [Card Spades Ace, Card Hearts R2]\<rparr>"]
    shouldKnock_spec [of "(newPlayer 1 ''Alex'' False)
        \<lparr>hand := [Card Spades Ace, Card Hearts Ace, Card Diamonds Ace, Card Clubs R2]\<rparr>"]
    shouldKnock_spec [of "(newPlayer 1 ''Alex'' False)\<lparr>hand := [Card Spades R2, Card Hearts R3]\<rparr>"]
    shouldKnock_spec [of "(newPlayer 1 ''Alex'' False)\<lparr>hand := [Card Spades R6]\<rparr>"]
  by (simp add: calculatePoints_def value_simps newPlayer_def book_of_aces no_spread_in_two)

section \<open>Knocking\<close>

lemma fold_upt_Suc: "fold f [0..<Suc k] a = f k (fold f [0..<k] a)"
  by simp

lemma knock_loop_invariant:
  "(snd (fold (knockStep ps cur) [0..<k] (None, None)) = None \<longrightarrow>
      fst (fold (knockStep ps cur) [0..<k] (None, None)) = None \<and> (\<forall>j<k. j = cur))
   \<and> (\<forall>m. snd (fold (knockStep ps cur) [0..<k] (None, None)) = Some m \<longrightarrow>
        (\<exists>w. fst (fold (knockStep ps cur) [0..<k] (None, None)) = Some w
           \<and> w < k \<and> w \<noteq> cur \<and> calculatePoints (ps ! w) = m
           \<and> (\<forall>j<k. j \<noteq> cur \<longrightarrow> m \<le> calculatePoints (ps ! j))
           \<and> (\<forall>j<w. j \<noteq> cur \<longrightarrow> m < calculatePoints (ps ! j))))"
proof (induction k)
  case 0
  show ?case by simp
next
  case (Suc k)
  obtain lp lpts where acc: "fold (knockStep ps cur) [0..<k] (None, None) = (lp, lpts)"
    by (cases "fold (knockStep ps cur) [0..<k] (None, None)")
  show ?case
  proof (cases "k = cur")
    case True
    then show ?thesis
      using Suc unfolding fold_upt_Suc acc
      by (auto simp: knockStep_def less_Suc_eq)
  next
    case False
    show ?thesis
    proof (cases lpts)
      case None
      then show ?thesis
        using Suc False unfolding fold_upt_Suc acc
        by (auto simp: knockStep_def belowLowest_def Let_def less_Suc_eq)
    next
      case (Some m)
      with Suc acc obtain w where w: "lp = Some w" "w < k" "w \<noteq> cur"
        "calculatePoints (ps ! w) = m"
        "\<forall>j<k. j \<noteq> cur \<longrightarrow> m \<le> calculatePoints (ps ! j)"
        "\<forall>j<w. j \<noteq> cur \<longrightarrow> m < calculatePoints (ps ! j)"
        by auto
      show ?thesis
      proof (cases "calculatePoints (ps ! k) < m")
        case True
        have step: "fold (knockStep ps cur) [0..<Suc k] (None, None)
                      = (Some k, Some (calculatePoints (ps ! k)))"
          unfolding fold_upt_Suc acc using True False Some
          by (simp add: knockStep_def belowLowest_def)
        have "\<forall>j<Suc k. j \<noteq> cur \<longrightarrow> calculatePoints (ps ! k) \<le> calculatePoints (ps ! j)"
          using True w(5) by (auto simp: less_Suc_eq)
        moreover have "\<forall>j<k. j \<noteq> cur \<longrightarrow> calculatePoints (ps ! k) < calculatePoints (ps ! j)"
          using True w(5) by fastforce
        ultimately show ?thesis unfolding step using False by simp
      next
        case nb: False
        have step: "fold (knockStep ps cur) [0..<Suc k] (None, None) = (Some w, Some m)"
          unfolding fold_upt_Suc acc using nb False Some w(1)
          by (simp add: knockStep_def belowLowest_def)
        have "\<forall>j<Suc k. j \<noteq> cur \<longrightarrow> m \<le> calculatePoints (ps ! j)"
          using nb w(5) by (auto simp: less_Suc_eq)
        then show ?thesis unfolding step using w by simp
      qed
    qed
  qed
qed

text \<open>
  C3.  A knock at the start of a turn ends the round (phase \<open>GAME_OVER\<close>, nothing else but
  winner and win condition changed).  The knocker wins with \<open>KNOCK\<close> exactly when the
  knocker's points are strictly below the points of every other player; otherwise the
  result is \<open>CAUGHT\<close> and the winner is the first other seat holding the minimum of the
  other players' points (so a knocker who ties that minimum is caught).
\<close>

theorem knock_outcome:
  assumes "phase g = START_OF_TURN" and "currentPlayerIndex g < length (players g)"
  shows "\<exists>w c. knock g = Inr (g\<lparr>winner := Some w, winCondition := Some c, phase := GAME_OVER\<rparr>)
     \<and> ((\<forall>j<length (players g). j \<noteq> currentPlayerIndex g \<longrightarrow>
           calculatePoints (players g ! currentPlayerIndex g) < calculatePoints (players g ! j))
         \<longrightarrow> c = KNOCK \<and> w = currentPlayerIndex g)
     \<and> (\<not> (\<forall>j<length (players g). j \<noteq> currentPlayerIndex g \<longrightarrow>
           calculatePoints (players g ! currentPlayerIndex g) < calculatePoints (players g ! j))
         \<longrightarrow> c = CAUGHT \<and> w \<noteq> currentPlayerIndex g \<and> w < length (players g)
           \<and> (\<forall>j<length (players g). j \<noteq> currentPlayerIndex g \<longrightarrow>
                 calculatePoints (players g ! w) \<le> calculatePoints (players g ! j))
           \<and> (\<forall>j<w. j \<noteq> currentPlayerIndex g \<longrightarrow>
                 calculatePoints (players g ! w) < calculatePoints (players g ! j)))"
proof -
  let ?ps = "players g" and ?cur = "currentPlayerIndex g"
  let ?kp = "calculatePoints (?ps ! ?cur)"
  obtain lp lpts where acc:
    "fold (knockStep ?ps ?cur) [0..<length ?ps] (None, None) = (lp, lpts)"
    by (cases "fold (knockStep ?ps ?cur) [0..<length ?ps] (None, None)")
  note inv = knock_loop_invariant [of ?ps ?cur "length ?ps", unfolded acc, simplified]
  have cp: "getCurrentPlayer g = Some (?ps ! ?cur)"
    using assms(2) by (simp add: getCurrentPlayer_def)
  show ?thesis
  proof (cases lpts)
    case None
    with inv have all: "\<forall>j<length ?ps. j = ?cur" by simp
    have "knock g = Inr (g\<lparr>winner := Some ?cur, winCondition := Some KNOCK, phase := GAME_OVER\<rparr>)"
      using assms(1) cp acc None by (simp add: knock_def belowLowest_def)
    then show ?thesis using all by (intro exI [of _ ?cur] exI [of _ KNOCK]) simp
  next
    case (Some m)
    with inv obtain w where w: "lp = Some w" "w < length ?ps" "w \<noteq> ?cur"
      "calculatePoints (?ps ! w) = m"
      "\<forall>j<length ?ps. j \<noteq> ?cur \<longrightarrow> m \<le> calculatePoints (?ps ! j)"
      "\<forall>j<w. j \<noteq> ?cur \<longrightarrow> m < calculatePoints (?ps ! j)"
      by auto
    show ?thesis
    proof (cases "?kp < m")
      case True
      have "knock g = Inr (g\<lparr>winner := Some ?cur, winCondition := Some KNOCK, phase := GAME_OVER\<rparr>)"
        using assms(1) cp acc Some True by (simp add: knock_def belowLowest_def)
      moreover have "\<forall>j<length ?ps. j \<noteq> ?cur \<longrightarrow> ?kp < calculatePoints (?ps ! j)"
        using True w(5) by fastforce
      ultimately show ?thesis by (intro exI [of _ ?cur] exI [of _ KNOCK]) simp
    next
      case False
      have "knock g = Inr (g\<lparr>winner := Some w, winCondition := Some CAUGHT, phase := GAME_OVER\<rparr>)"
        using assms(1) cp acc Some False w(1) by (simp add: knock_def belowLowest_def)
      moreover have "\<not> (\<forall>j<length ?ps. j \<noteq> ?cur \<longrightarrow> ?kp < calculatePoints (?ps ! j))"
        using False w(2,3,4) by auto
      ultimately show ?thesis using w(2,3,5,6) unfolding w(4) [symmetric]
        by (intro exI [of _ w] exI [of _ CAUGHT]) simp
    qed
  qed
qed

lemma gameWithHands_simps:
  "phase (gameWithHands ph cur hands) = ph"
  "currentPlayerIndex (gameWithHands ph cur hands) = cur"
  "length (players (gameWithHands ph cur hands)) = length hands"
  "cards (deck (gameWithHands ph cur hands)) = []"
  "i < length hands \<Longrightarrow> hand (players (gameWithHands ph cur hands) ! i) = hands ! i"
  "i < length hands \<Longrightarrow> pid (players (gameWithHands ph cur hands) ! i) = i"
  by (simp_all add: gameWithHands_def newPlayer_def)

lemma gameWithHands_points:
  "i < length hands \<Longrightarrow>
     calculatePoints (players (gameWithHands ph cur hands) ! i)
       = foldl (\<lambda>sum c. sum + calculateValue c) 0 (hands ! i)"
  by (simp add: calculatePoints_def gameWithHands_simps)

theorem knock_outcome_witness:
  "phase (gameWithHands START_OF_TURN 0 [[Card Spades R5], [Card Hearts R8], [Card Hearts R5]])
     = START_OF_TURN
   \<and> currentPlayerIndex (gameWithHands START_OF_TURN 0 [[Card Spades R5], [Card Hearts R8], [Card Hearts R5]])
     < length (players (gameWithHands START_OF_TURN 0 [[Card Spades R5], [Card Hearts R8], [Card Hearts R5]]))
   \<and> knock (gameWithHands START_OF_TURN 0 [[Card Spades R5], [Card Hearts R8], [Card Hearts R5]])
     = Inr ((gameWithHands START_OF_TURN 0 [[Card Spades R5], [Card Hearts R8], [Card Hearts R5]])
              \<lparr>winner := Some 2, winCondition := Some CAUGHT, phase := GAME_OVER\<rparr>)"
proof -
  let ?g = "gameWithHands START_OF_TURN 0 [[Card Spades R5], [Card Hearts R8], [Card Hearts R5]]"
  have h1: "phase ?g = START_OF_TURN" by (simp add: gameWithHands_simps)
  have h2: "currentPlayerIndex ?g < length (players ?g)" by (simp add: gameWithHands_simps)
  have n: "length (players ?g) = 3" by (simp add: gameWithHands_simps)
  have p0: "calculatePoints (players ?g ! 0) = 5"
    and p1: "calculatePoints (players ?g ! 1) = 8"
    and p2: "calculatePoints (players ?g ! 2) = 5"
    by (simp_all add: gameWithHands_points value_simps)
  from knock_outcome [OF h1 h2] obtain w c where
    k: "knock ?g = Inr (?g\<lparr>winner := Some w, winCondition := Some c, phase := GAME_OVER\<rparr>)"
    and caught: "\<not> (\<forall>j<length (players ?g). j \<noteq> currentPlayerIndex ?g \<longrightarrow>
           calculatePoints (players ?g ! currentPlayerIndex ?g) < calculatePoints (players ?g ! j))
         \<longrightarrow> c = CAUGHT \<and> w \<noteq> currentPlayerIndex ?g \<and> w < length (players ?g)
           \<and> (\<forall>j<length (players ?g). j \<noteq> currentPlayerIndex ?g \<longrightarrow>
                 calculatePoints (players ?g ! w) \<le> calculatePoints (players ?g ! j))
           \<and> (\<forall>j<w. j \<noteq> currentPlayerIndex ?g \<longrightarrow>
                 calculatePoints (players ?g ! w) < calculatePoints (players ?g ! j))"
    by blast
  have cur: "currentPlayerIndex ?g = 0" by (simp add: gameWithHands_simps)
  have tie: "\<not> (\<forall>j<length (players ?g). j \<noteq> currentPlayerIndex ?g \<longrightarrow>
           calculatePoints (players ?g ! currentPlayerIndex ?g) < calculatePoints (players ?g ! j))"
    unfolding n cur using p0 p2 by (auto intro: exI [of _ 2])
  from caught tie have c: "c = CAUGHT" and w0: "w \<noteq> 0" and w3: "w < 3"
    and le: "\<forall>j<3. j \<noteq> 0 \<longrightarrow> calculatePoints (players ?g ! w) \<le> calculatePoints (players ?g ! j)"
    unfolding n cur by blast+
  have "w \<noteq> 1"
  proof
    assume "w = 1"
    with le have "calculatePoints (players ?g ! 1) \<le> calculatePoints (players ?g ! 2)" by simp
    with p1 p2 show False by simp
  qed
  with w0 w3 have "w = 2" by arith
  with k c h1 h2 show ?thesis by simp
qed

section \<open>An empty stock\<close>

lemma stock_loop_invariant:
  "snd (fold (stockStep ps) [0..<k] (0, calculatePoints (ps ! 0)))
     = calculatePoints (ps ! fst (fold (stockStep ps) [0..<k] (0, calculatePoints (ps ! 0))))
   \<and> (fst (fold (stockStep ps) [0..<k] (0, calculatePoints (ps ! 0))) < k
      \<or> fst (fold (stockStep ps) [0..<k] (0, calculatePoints (ps ! 0))) = 0)
   \<and> (\<forall>j<k. snd (fold (stockStep ps) [0..<k] (0, calculatePoints (ps ! 0)))
              \<le> calculatePoints (ps ! j))
   \<and> (\<forall>j<fst (fold (stockStep ps) [0..<k] (0, calculatePoints (ps ! 0))).
         snd (fold (stockStep ps) [0..<k] (0, calculatePoints (ps ! 0)))
           < calculatePoints (ps ! j))"
proof (induction k)
  case 0
  show ?case by simp
next
  case (Suc k)
  obtain w m where acc: "fold (stockStep ps) [0..<k] (0, calculatePoints (ps ! 0)) = (w, m)"
    by (cases "fold (stockStep ps) [0..<k] (0, calculatePoints (ps ! 0))")
  from Suc acc have ih: "m = calculatePoints (ps ! w)" "w < k \<or> w = 0"
    "\<forall>j<k. m \<le> calculatePoints (ps ! j)" "\<forall>j<w. m < calculatePoints (ps ! j)"
    by auto
  show ?case
  proof (cases "calculatePoints (ps ! k) < m")
    case True
    have step: "fold (stockStep ps) [0..<Suc k] (0, calculatePoints (ps ! 0))
                  = (k, calculatePoints (ps ! k))"
      unfolding fold_upt_Suc acc using True by (simp add: stockStep_def)
    have "\<forall>j<Suc k. calculatePoints (ps ! k) \<le> calculatePoints (ps ! j)"
      using True ih(3) by (auto simp: less_Suc_eq)
    moreover have "\<forall>j<k. calculatePoints (ps ! k) < calculatePoints (ps ! j)"
      using True ih(3) by fastforce
    ultimately show ?thesis unfolding step by simp
  next
    case False
    have step: "fold (stockStep ps) [0..<Suc k] (0, calculatePoints (ps ! 0)) = (w, m)"
      unfolding fold_upt_Suc acc using False by (simp add: stockStep_def)
    have "\<forall>j<Suc k. m \<le> calculatePoints (ps ! j)"
      using False ih(3) by (auto simp: less_Suc_eq)
    then show ?thesis unfolding step using ih by auto
  qed
qed

text \<open>
  C5.  \<open>drawFromDeck\<close> in the \<open>DRAW\<close> phase on an empty stock returns \<open>null\<close> and ends the
  round: phase \<open>GAME_OVER\<close>, win condition \<open>STOCK_EMPTY\<close>, and the winner is the first seat
  (the current player's included) holding the lowest point total.  Nothing else
  changes: no hand loses a card, and the discard pile stays where it is.
\<close>

theorem drawFromDeck_stock_empty:
  assumes "phase g = DRAW" and "cards (deck g) = []" and "players g \<noteq> []"
  shows "\<exists>w. drawFromDeck g
              = Inr (g\<lparr>winner := Some w, winCondition := Some STOCK_EMPTY, phase := GAME_OVER\<rparr>, None)
     \<and> w < length (players g)
     \<and> (\<forall>j<length (players g). calculatePoints (players g ! w) \<le> calculatePoints (players g ! j))
     \<and> (\<forall>j<w. calculatePoints (players g ! w) < calculatePoints (players g ! j))"
proof -
  let ?ps = "players g"
  obtain w m where acc:
    "fold (stockStep ?ps) [0..<length ?ps] (0, calculatePoints (?ps ! 0)) = (w, m)"
    by (cases "fold (stockStep ?ps) [0..<length ?ps] (0, calculatePoints (?ps ! 0))")
  from stock_loop_invariant [of ?ps "length ?ps"] acc
  have inv: "m = calculatePoints (?ps ! w)" "w < length ?ps \<or> w = 0"
    "\<forall>j<length ?ps. m \<le> calculatePoints (?ps ! j)" "\<forall>j<w. m < calculatePoints (?ps ! j)"
    by auto
  have wn: "w < length ?ps" using inv(2) assms(3) by auto
  have dr: "Deck_draw (deck g) = (None, deck g)"
    using assms(2) by (simp add: Deck_draw_def)
  have "endGameStockEmpty g
          = Inr (g\<lparr>winner := Some w, winCondition := Some STOCK_EMPTY, phase := GAME_OVER\<rparr>)"
    using assms(3) acc by (simp add: endGameStockEmpty_def)
  then have "drawFromDeck g
          = Inr (g\<lparr>winner := Some w, winCondition := Some STOCK_EMPTY, phase := GAME_OVER\<rparr>, None)"
    using assms(1) dr by (simp add: drawFromDeck_def)
  then show ?thesis using wn inv(3,4) unfolding inv(1) by (intro exI [of _ w]) simp
qed

theorem drawFromDeck_stock_empty_witness:
  "phase (gameWithHands DRAW 1 [[Card Spades R5], [Card Hearts R3], [Card Diamonds R3]]) = DRAW
   \<and> cards (deck (gameWithHands DRAW 1 [[Card Spades R5], [Card Hearts R3], [Card Diamonds R3]])) = []
   \<and> players (gameWithHands DRAW 1 [[Card Spades R5], [Card Hearts R3], [Card Diamonds R3]]) \<noteq> []
   \<and> drawFromDeck (gameWithHands DRAW 1 [[Card Spades R5], [Card Hearts R3], [Card Diamonds R3]])
     = Inr ((gameWithHands DRAW 1 [[Card Spades R5], [Card Hearts R3], [Card Diamonds R3]])
              \<lparr>winner := Some 1, winCondition := Some STOCK_EMPTY, phase := GAME_OVER\<rparr>, None)"
proof -
  let ?g = "gameWithHands DRAW 1 [[Card Spades R5], [Card Hearts R3], [Card Diamonds R3]]"
  have h1: "phase ?g = DRAW" by (simp add: gameWithHands_simps)
  have h2: "cards (deck ?g) = []" by (simp add: gameWithHands_simps)
  have n: "length (players ?g) = 3" by (simp add: gameWithHands_simps)
  then have h3: "players ?g \<noteq> []" by auto
  have p0: "calculatePoints (players ?g ! 0) = 5"
    and p1: "calculatePoints (players ?g ! 1) = 3"
    and p2: "calculatePoints (players ?g ! 2) = 3"
    by (simp_all add: gameWithHands_points value_simps)
  from drawFromDeck_stock_empty [OF h1 h2 h3] obtain w where
    d: "drawFromDeck ?g
          = Inr (?g\<lparr>winner := Some w, winCondition := Some STOCK_EMPTY, phase := GAME_OVER\<rparr>, None)"
    and w3: "w < 3"
    and le: "\<forall>j<3. calculatePoints (players ?g ! w) \<le> calculatePoints (players ?g ! j)"
    and lt: "\<forall>j<w. calculatePoints (players ?g ! w) < calculatePoints (players ?g ! j)"
    unfolding n by blast
  have "w \<noteq> 0"
  proof
    assume "w = 0"
    with le have "calculatePoints (players ?g ! 0) \<le> calculatePoints (players ?g ! 1)" by simp
    with p0 p1 show False by simp
  qed
  moreover have "w \<noteq> 2"
  proof
    assume "w = 2"
    with lt have "calculatePoints (players ?g ! 2) < calculatePoints (players ?g ! 1)" by simp
    with p1 p2 show False by simp
  qed
  ultimately have "w = 1" using w3 by arith
  with d h1 h2 h3 show ?thesis by simp
qed

section \<open>Round scoring\<close>

lemma distinct_pid_nth:
  "distinct (map pid ps) \<Longrightarrow> i < length ps \<Longrightarrow> j < length ps \<Longrightarrow>
     (pid (ps ! i) = pid (ps ! j)) = (i = j)"
  using nth_eq_iff_index_eq [of "map pid ps" i j] by simp

lemma scoring_loop_invariant:
  assumes "distinct (map pid ps)"
  shows "k \<le> length ps \<Longrightarrow>
     (\<forall>j<k. Some j \<noteq> w \<longrightarrow>
        map_of (fst (fold (scoringStep ps w) [0..<k] (ms, []))) (pid (ps ! j))
          = Some (scoreOf ms (pid (ps ! j)) + calculatePoints (ps ! j)))
   \<and> (\<forall>i. (\<forall>j<k. Some j \<noteq> w \<longrightarrow> pid (ps ! j) \<noteq> i) \<longrightarrow>
        map_of (fst (fold (scoringStep ps w) [0..<k] (ms, []))) i = map_of ms i)"
proof (induction k)
  case 0
  show ?case by simp
next
  case (Suc k)
  obtain msk ls where acc: "fold (scoringStep ps w) [0..<k] (ms, []) = (msk, ls)"
    by (cases "fold (scoringStep ps w) [0..<k] (ms, [])")
  from Suc acc have kn: "k < length ps"
    and ih1: "\<forall>j<k. Some j \<noteq> w \<longrightarrow>
        map_of msk (pid (ps ! j)) = Some (scoreOf ms (pid (ps ! j)) + calculatePoints (ps ! j))"
    and ih2: "\<forall>i. (\<forall>j<k. Some j \<noteq> w \<longrightarrow> pid (ps ! j) \<noteq> i) \<longrightarrow> map_of msk i = map_of ms i"
    by auto
  show ?case
  proof (cases "Some k = w")
    case True
    have step: "fold (scoringStep ps w) [0..<Suc k] (ms, []) = (msk, ls)"
      unfolding fold_upt_Suc acc using True by (simp add: scoringStep_def)
    show ?thesis unfolding step using ih1 ih2 True by (auto simp: less_Suc_eq)
  next
    case False
    define v where "v = scoreOf msk (pid (ps ! k)) + calculatePoints (ps ! k)"
    have fresh: "\<forall>j<k. pid (ps ! j) \<noteq> pid (ps ! k)"
      using distinct_pid_nth [OF assms] kn by auto
    then have "map_of msk (pid (ps ! k)) = map_of ms (pid (ps ! k))"
      using ih2 by blast
    then have v: "v = scoreOf ms (pid (ps ! k)) + calculatePoints (ps ! k)"
      by (simp add: v_def scoreOf_def)
    have step: "fst (fold (scoringStep ps w) [0..<Suc k] (ms, []))
                  = AList.update (pid (ps ! k)) v msk"
      unfolding fold_upt_Suc acc using False by (simp add: scoringStep_def Let_def v_def)
    have m: "map_of (AList.update (pid (ps ! k)) v msk) = (map_of msk)(pid (ps ! k) \<mapsto> v)"
      by (rule update_conv')
    have a: "\<forall>j<Suc k. Some j \<noteq> w \<longrightarrow>
        map_of (AList.update (pid (ps ! k)) v msk) (pid (ps ! j))
          = Some (scoreOf ms (pid (ps ! j)) + calculatePoints (ps ! j))"
      unfolding m using ih1 fresh v by (auto simp: less_Suc_eq)
    have b: "\<forall>i. (\<forall>j<Suc k. Some j \<noteq> w \<longrightarrow> pid (ps ! j) \<noteq> i) \<longrightarrow>
        map_of (AList.update (pid (ps ! k)) v msk) i = map_of ms i"
      unfolding m using ih2 False by (auto simp: less_Suc_eq)
    show ?thesis unfolding step using a b by blast
  qed
qed

lemma foldl_plus_sum_list:
  "foldl (\<lambda>sum c. sum + f c) a xs = a + sum_list (map f xs)" for a :: int
  by (induction xs arbitrary: a) simp_all

lemma calculatePoints_sum: "calculatePoints p = sum_list (map calculateValue (hand p))"
  by (simp add: calculatePoints_def foldl_plus_sum_list)

text \<open>
  C8.  With players of pairwise distinct ids and a winner set, \<open>applyRoundScoring\<close> changes
  nothing but \<open>matchScores\<close>; there the winner's entry is as before, every other player's
  entry is that player's old entry (none counting as 0) plus the values of the cards in
  that player's hand, and the entries of ids that belong to no player are as before.
\<close>

theorem applyRoundScoring_spec:
  assumes "distinct (map pid (players g))" and "winner g = Some w"
  shows "fst (applyRoundScoring g) = g\<lparr>matchScores := matchScores (fst (applyRoundScoring g))\<rparr>
     \<and> (w < length (players g) \<longrightarrow>
          map_of (matchScores (fst (applyRoundScoring g))) (pid (players g ! w))
            = map_of (matchScores g) (pid (players g ! w)))
     \<and> (\<forall>j<length (players g). j \<noteq> w \<longrightarrow>
          map_of (matchScores (fst (applyRoundScoring g))) (pid (players g ! j))
            = Some ((case map_of (matchScores g) (pid (players g ! j)) of
                       None \<Rightarrow> 0 | Some old \<Rightarrow> old)
                    + sum_list (map calculateValue (hand (players g ! j)))))
     \<and> (\<forall>i. i \<notin> pid ` set (players g) \<longrightarrow>
          map_of (matchScores (fst (applyRoundScoring g))) i = map_of (matchScores g) i)"
proof -
  let ?ps = "players g"
  let ?r = "fold (scoringStep ?ps (winner g)) [0..<length ?ps] (matchScores g, [])"
  have ms: "matchScores (fst (applyRoundScoring g)) = fst ?r"
    by (simp add: applyRoundScoring_def split: prod.splits)
  have frame: "fst (applyRoundScoring g) = g\<lparr>matchScores := fst ?r\<rparr>"
    by (simp add: applyRoundScoring_def split: prod.splits)
  note inv = scoring_loop_invariant [OF assms(1), of "length ?ps" "winner g" "matchScores g",
      simplified]
  have 1: "fst (applyRoundScoring g) = g\<lparr>matchScores := matchScores (fst (applyRoundScoring g))\<rparr>"
    unfolding ms by (rule frame)
  have 2: "w < length ?ps \<longrightarrow>
          map_of (matchScores (fst (applyRoundScoring g))) (pid (?ps ! w))
            = map_of (matchScores g) (pid (?ps ! w))"
  proof
    assume wn: "w < length ?ps"
    have "\<forall>j<length ?ps. Some j \<noteq> winner g \<longrightarrow> pid (?ps ! j) \<noteq> pid (?ps ! w)"
      using distinct_pid_nth [OF assms(1)] wn assms(2) by auto
    with inv show "map_of (matchScores (fst (applyRoundScoring g))) (pid (?ps ! w))
            = map_of (matchScores g) (pid (?ps ! w))"
      unfolding ms by blast
  qed
  have 3: "\<forall>j<length ?ps. j \<noteq> w \<longrightarrow>
          map_of (matchScores (fst (applyRoundScoring g))) (pid (?ps ! j))
            = Some ((case map_of (matchScores g) (pid (?ps ! j)) of None \<Rightarrow> 0 | Some old \<Rightarrow> old)
                    + sum_list (map calculateValue (hand (?ps ! j))))"
    unfolding ms using inv assms(2) by (auto simp: scoreOf_def calculatePoints_sum)
  have 4: "\<forall>i. i \<notin> pid ` set ?ps \<longrightarrow>
          map_of (matchScores (fst (applyRoundScoring g))) i = map_of (matchScores g) i"
  proof (intro allI impI)
    fix i
    assume "i \<notin> pid ` set ?ps"
    then have "\<forall>j<length ?ps. Some j \<noteq> winner g \<longrightarrow> pid (?ps ! j) \<noteq> i"
      by (metis image_eqI nth_mem)
    with inv show "map_of (matchScores (fst (applyRoundScoring g))) i = map_of (matchScores g) i"
      unfolding ms by blast
  qed
  from 1 2 3 4 show ?thesis by blast
qed

theorem applyRoundScoring_spec_witness:
  "distinct (map pid (players wonRound)) \<and> winner wonRound = Some 0
   \<and> map pid (players wonRound) = [0, 1, 2]
   \<and> map hand (players wonRound)
       = [[Card Spades R5], [Card Hearts King, Card Diamonds R3], [Card Clubs R4]]
   \<and> matchScores wonRound = [(0, 7), (1, 20)]
   \<and> map_of (matchScores (fst (applyRoundScoring wonRound))) 0 = Some 7
   \<and> map_of (matchScores (fst (applyRoundScoring wonRound))) 1 = Some 33
   \<and> map_of (matchScores (fst (applyRoundScoring wonRound))) 2 = Some 4"
proof -
  have ids: "map pid (players wonRound) = [0, 1, 2]"
    by (simp add: wonRound_def gameWithHands_def newPlayer_def upt_rec)
  have hands: "map hand (players wonRound)
       = [[Card Spades R5], [Card Hearts King, Card Diamonds R3], [Card Clubs R4]]"
    by (simp add: wonRound_def gameWithHands_def newPlayer_def upt_rec)
  have h1: "distinct (map pid (players wonRound))" unfolding ids by simp
  have h2: "winner wonRound = Some 0" by (simp add: wonRound_def)
  have scores: "matchScores wonRound = [(0, 7), (1, 20)]" by (simp add: wonRound_def)
  have n: "length (players wonRound) = 3"
    using arg_cong [OF ids, of length] by simp
  have id: "pid (players wonRound ! 0) = 0" "pid (players wonRound ! 1) = 1"
    "pid (players wonRound ! 2) = 2"
    using arg_cong [OF ids, of "\<lambda>xs. xs ! 0"] arg_cong [OF ids, of "\<lambda>xs. xs ! 1"]
      arg_cong [OF ids, of "\<lambda>xs. xs ! 2"] n by simp_all
  have hd: "hand (players wonRound ! 1) = [Card Hearts King, Card Diamonds R3]"
    "hand (players wonRound ! 2) = [Card Clubs R4]"
    using arg_cong [OF hands, of "\<lambda>xs. xs ! 1"] arg_cong [OF hands, of "\<lambda>xs. xs ! 2"] n
    by simp_all
  from applyRoundScoring_spec [OF h1 h2]
  have a: "0 < length (players wonRound) \<longrightarrow>
          map_of (matchScores (fst (applyRoundScoring wonRound))) (pid (players wonRound ! 0))
            = map_of (matchScores wonRound) (pid (players wonRound ! 0))"
    and b: "\<forall>j<length (players wonRound). j \<noteq> 0 \<longrightarrow>
          map_of (matchScores (fst (applyRoundScoring wonRound))) (pid (players wonRound ! j))
            = Some ((case map_of (matchScores wonRound) (pid (players wonRound ! j)) of
                       None \<Rightarrow> 0 | Some old \<Rightarrow> old)
                    + sum_list (map calculateValue (hand (players wonRound ! j))))"
    by blast+
  from a have r0: "map_of (matchScores (fst (applyRoundScoring wonRound))) 0 = Some 7"
    unfolding n id scores by simp
  from b have "map_of (matchScores (fst (applyRoundScoring wonRound))) (pid (players wonRound ! 1))
            = Some ((case map_of (matchScores wonRound) (pid (players wonRound ! 1)) of
                       None \<Rightarrow> 0 | Some old \<Rightarrow> old)
                    + sum_list (map calculateValue (hand (players wonRound ! 1))))"
    unfolding n by simp
  then have r1: "map_of (matchScores (fst (applyRoundScoring wonRound))) 1 = Some 33"
    unfolding id hd scores by (simp add: value_simps)
  from b have "map_of (matchScores (fst (applyRoundScoring wonRound))) (pid (players wonRound ! 2))
            = Some ((case map_of (matchScores wonRound) (pid (players wonRound ! 2)) of
                       None \<Rightarrow> 0 | Some old \<Rightarrow> old)
                    + sum_list (map calculateValue (hand (players wonRound ! 2))))"
    unfolding n by simp
  then have r2: "map_of (matchScores (fst (applyRoundScoring wonRound))) 2 = Some 4"
    unfolding id hd scores by (simp add: value_simps)
  show ?thesis using h1 h2 ids hands scores r0 r1 r2 by blast
qed

text \<open>
  When two players have the same id they share one entry of \<open>matchScores\<close>, and scoring
  the loser changes the winner's score.  In \<open>sharedIdKnock\<close> seat 1 has won, both players
  have id 0 and the score of that id is 0; after \<open>applyRoundScoring\<close> it is 41, the hand
  points of seat 0.
\<close>

theorem shared_id_scores_the_winner_counterexample:
  "map_option winner sharedIdKnock = Some (Some 1)
   \<and> map_option (map pid \<circ> players) sharedIdKnock = Some [0, 0]
   \<and> map_option (map calculatePoints \<circ> players) sharedIdKnock = Some [41, 38]
   \<and> map_option matchScores sharedIdKnock = Some [(0, 0)]
   \<and> map_option matchScores sharedIdScored = Some [(0, 41)]"
  by code_simp

section \<open>Antes and voided deals\<close>

lemma afterAnte_step:
  assumes "k < length ps"
  shows "(map afterAnte (take k ps) @ drop k ps)[k := afterAnte (ps ! k)]
           = map afterAnte (take (Suc k) ps) @ drop (Suc k) ps"
proof -
  have "drop k ps = ps ! k # drop (Suc k) ps"
    using assms by (simp add: Cons_nth_drop_Suc)
  then have "(map afterAnte (take k ps) @ drop k ps)[k := afterAnte (ps ! k)]
           = map afterAnte (take k ps) @ afterAnte (ps ! k) # drop (Suc k) ps"
    using assms by (simp add: list_update_append)
  also have "\<dots> = map afterAnte (take (Suc k) ps) @ drop (Suc k) ps"
    using assms by (simp add: take_Suc_conv_app_nth)
  finally show ?thesis .
qed

lemma afterAnte_nth:
  assumes "k < length ps"
  shows "(map afterAnte (take k ps) @ drop k ps) ! k = ps ! k"
  using assms by (simp add: nth_append)

lemma afterAnte_same:
  assumes "k < length ps" and "afterAnte (ps ! k) = ps ! k"
  shows "map afterAnte (take k ps) @ drop k ps = map afterAnte (take (Suc k) ps) @ drop (Suc k) ps"
proof -
  have "(map afterAnte (take k ps) @ drop k ps)[k := ps ! k] = map afterAnte (take k ps) @ drop k ps"
    using afterAnte_nth [OF assms(1)] by (metis list_update_id)
  then show ?thesis using afterAnte_step [OF assms(1)] assms(2) by simp
qed

lemma ante_loop:
  "k \<le> length (players g) \<Longrightarrow>
     fold anteStep [0..<k] g
       = g\<lparr>players := map afterAnte (take k (players g)) @ drop k (players g),
            pot := pot g + sum_list (map anteOf (take k (players g)))\<rparr>"
proof (induction k)
  case 0
  show ?case by simp
next
  case (Suc k)
  let ?ps = "players g"
  let ?s = "g\<lparr>players := map afterAnte (take k ?ps) @ drop k ?ps,
              pot := pot g + sum_list (map anteOf (take k ?ps))\<rparr>"
  from Suc have kn: "k < length ?ps" and ih: "fold anteStep [0..<k] g = ?s" by simp_all
  have nth: "players ?s ! k = ?ps ! k" using afterAnte_nth [OF kn] by simp
  have tk: "sum_list (map anteOf (take (Suc k) ?ps))
              = sum_list (map anteOf (take k ?ps)) + anteOf (?ps ! k)"
    using kn by (simp add: take_Suc_conv_app_nth)
  show ?case
  proof (cases "isEliminated (?ps ! k)")
    case True
    then have same: "afterAnte (?ps ! k) = ?ps ! k" and zero: "anteOf (?ps ! k) = 0"
      by (simp_all add: afterAnte_def anteOf_def)
    have "anteStep k ?s = ?s" using True nth by (simp add: anteStep_def Let_def)
    then show ?thesis
      unfolding fold_upt_Suc ih tk zero using afterAnte_same [OF kn same] by simp
  next
    case False
    then have a: "afterAnte (?ps ! k) = snd (bet (resetBet (?ps ! k)) ANTE_AMOUNT)"
      and b: "anteOf (?ps ! k) = fst (bet (resetBet (?ps ! k)) ANTE_AMOUNT)"
      by (simp_all add: afterAnte_def anteOf_def bet_def resetBet_def Let_def)
    have "anteStep k ?s
            = ?s\<lparr>players := (players ?s)[k := afterAnte (?ps ! k)],
                  pot := pot ?s + anteOf (?ps ! k)\<rparr>"
      using False unfolding anteStep_def Let_def nth a b by (simp add: case_prod_beta)
    then show ?thesis
      unfolding fold_upt_Suc ih tk using afterAnte_step [OF kn] by simp
  qed
qed

lemma collectAntes_closed:
  "collectAntes g
     = g\<lparr>players := map afterAnte (players g),
          pot := sum_list (map anteOf (players g)),
          highestBet := ANTE_AMOUNT\<rparr>"
  using ante_loop [of "length (players g)" "g\<lparr>pot := 0, highestBet := ANTE_AMOUNT\<rparr>"]
  by (simp add: collectAntes_def)

lemma chips_afterAnte: "chips (afterAnte p) = chips p - anteOf p"
  by (simp add: afterAnte_def anteOf_def bet_def resetBet_def Let_def)

lemma isEliminated_afterAnte: "isEliminated (afterAnte p) = isEliminated p"
  by (simp add: afterAnte_def bet_def resetBet_def Let_def)

lemma map_update_same: "(map f xs)[i := f (xs ! i)] = map f xs"
  by (metis list_update_id map_update)

lemma ledger_dealStep: "ledger (dealStep i g) = ledger g"
proof (cases "Deck_draw (deck g)")
  case (Pair c d1)
  show ?thesis
  proof (cases c)
    case None
    with Pair show ?thesis by (simp add: dealStep_def ledger_def)
  next
    case (Some x)
    have "map (\<lambda>p. (chips p, isEliminated p)) ((players g)[i := Player_addCard (players g ! i) x])
            = map (\<lambda>p. (chips p, isEliminated p)) (players g)"
      using map_update_same [of "\<lambda>p. (chips p, isEliminated p)" "players g" i]
      by (simp add: map_update Player_addCard_def)
    with Pair Some show ?thesis by (simp add: dealStep_def ledger_def)
  qed
qed

lemma ledger_fold_dealStep: "ledger (fold dealStep is g) = ledger g"
  by (induction "is" arbitrary: g) (simp_all add: ledger_dealStep)

lemma ledger_dealPass: "ledger (dealPass g) = ledger g"
  by (simp add: dealPass_def ledger_fold_dealStep)

lemma ledger_dealPasses: "ledger ((dealPass ^^ n) g) = ledger g"
  by (induction n) (simp_all add: ledger_dealPass)

lemma ledger_deal: "ledger (deal g) = ledger g"
proof -
  have "ledger (deal g)
          = ledger ((dealPass ^^ getCardsPerPlayer (length (players g))) g)"
    by (simp add: deal_def Let_def ledger_def split: prod.splits option.splits)
  then show ?thesis by (simp add: ledger_dealPasses)
qed

lemma ledger_dealAttempt: "ledger (dealAttempt g) = ledger (collectAntes g)"
  using ledger_deal [of "collectAntes g"] by (simp add: dealAttempt_def ledger_def)

lemma ledger_redealState: "ledger (redealState rnd g) = ledger g"
  by (simp add: redealState_def ledger_def Player_reset_def comp_def)

lemma ledger_chips: "ledger g = ledger h \<Longrightarrow> map chips (players g) = map chips (players h)"
proof -
  assume "ledger g = ledger h"
  then have "map fst (map (\<lambda>p. (chips p, isEliminated p)) (players g))
           = map fst (map (\<lambda>p. (chips p, isEliminated p)) (players h))"
    by (simp add: ledger_def)
  then show ?thesis by (simp add: comp_def)
qed

lemma ledger_anteOf: "ledger g = ledger h \<Longrightarrow> map anteOf (players g) = map anteOf (players h)"
proof -
  assume "ledger g = ledger h"
  then have "map (\<lambda>(c, e). if e then 0 else min ANTE_AMOUNT c)
                 (map (\<lambda>p. (chips p, isEliminated p)) (players g))
           = map (\<lambda>(c, e). if e then 0 else min ANTE_AMOUNT c)
                 (map (\<lambda>p. (chips p, isEliminated p)) (players h))"
    by (simp add: ledger_def)
  then show ?thesis by (simp add: comp_def anteOf_def [abs_def])
qed

lemma ledger_pot: "ledger g = ledger h \<Longrightarrow> pot g = pot h"
  by (simp add: ledger_def)

lemma ledger_chipsTotal: "ledger g = ledger h \<Longrightarrow> chipsTotal g = chipsTotal h"
  using ledger_chips [of g h] ledger_pot [of g h] by (simp add: chipsTotal_def)

lemma sum_list_minus:
  "sum_list (map (\<lambda>p. chips p - anteOf p) ps) = sum_list (map chips ps) - sum_list (map anteOf ps)"
  by (induction ps) simp_all

lemma chipsTotal_collectAntes: "chipsTotal (collectAntes g) = sum_list (map chips (players g))"
  by (simp add: collectAntes_closed chipsTotal_def comp_def chips_afterAnte sum_list_minus)

lemma anteOf_afterAnte_nonneg: "0 \<le> chips p \<Longrightarrow> 0 \<le> chips (afterAnte p)"
  by (simp add: chips_afterAnte anteOf_def ANTE_AMOUNT_def)

lemma dealAndCheckInitialTonk_unfold:
  "dealAndCheckInitialTonk rnds g =
     (if length (checkInitialTonk (dealAttempt g)) > 1
      then (case rnds of
              [] \<Rightarrow> None
            | rnd # rest \<Rightarrow> dealAndCheckInitialTonk rest (redealState rnd (dealAttempt g)))
      else if length (checkInitialTonk (dealAttempt g)) = 1
      then Some ((dealAttempt g)\<lparr>winner := Some (checkInitialTonk (dealAttempt g) ! 0),
                                 winCondition := Some INITIAL_TONK,
                                 phase := GAME_OVER\<rparr>)
      else Some ((dealAttempt g)\<lparr>phase := START_OF_TURN\<rparr>))"
  unfolding dealAttempt_def by (subst dealAndCheckInitialTonk.simps) (simp add: Let_def)

lemma ledger_players_map:
  assumes "ledger g = ledger h"
  shows "map (\<lambda>p. F (chips p) (isEliminated p)) (players g)
           = map (\<lambda>p. F (chips p) (isEliminated p)) (players h)"
proof -
  from assms have "map (\<lambda>(c, e). F c e) (map (\<lambda>p. (chips p, isEliminated p)) (players g))
           = map (\<lambda>(c, e). F c e) (map (\<lambda>p. (chips p, isEliminated p)) (players h))"
    by (simp add: ledger_def)
  then show ?thesis by (simp add: comp_def)
qed

lemma ledger_chips_after:
  "ledger g = ledger h \<Longrightarrow>
     map (\<lambda>p. chips p - anteOf p) (players g) = map (\<lambda>p. chips p - anteOf p) (players h)"
  using ledger_players_map [of g h "\<lambda>c e. c - (if e then 0 else min ANTE_AMOUNT c)"]
  by (simp add: anteOf_def [abs_def])

lemma antes_positive:
  "(\<forall>p\<in>set ps. 0 \<le> chips p) \<Longrightarrow> (\<exists>p\<in>set ps. \<not> isEliminated p \<and> 0 < chips p) \<Longrightarrow>
     0 < sum_list (map anteOf ps)"
proof (induction ps)
  case Nil
  then show ?case by simp
next
  case (Cons a ps)
  have nn: "0 \<le> sum_list (map anteOf ps)"
    using Cons.prems(1) by (intro sum_list_nonneg) (auto simp: anteOf_def ANTE_AMOUNT_def)
  have a0: "0 \<le> anteOf a" using Cons.prems(1) by (simp add: anteOf_def ANTE_AMOUNT_def)
  show ?case
  proof (cases "\<not> isEliminated a \<and> 0 < chips a")
    case True
    then have "0 < anteOf a" by (simp add: anteOf_def ANTE_AMOUNT_def)
    with nn show ?thesis by simp
  next
    case False
    with Cons.prems have "\<exists>p\<in>set ps. \<not> isEliminated p \<and> 0 < chips p" by auto
    with Cons.IH Cons.prems(1) have "0 < sum_list (map anteOf ps)" by simp
    with a0 show ?thesis by simp
  qed
qed

lemma antes_zero:
  "(\<forall>p\<in>set ps. isEliminated p \<or> chips p = 0) \<Longrightarrow> sum_list (map anteOf ps) = 0"
  by (induction ps) (auto simp: anteOf_def ANTE_AMOUNT_def)

text \<open>
  C10.  \<open>collectAntes\<close> sets the pot to the antes it takes in this call,
  whatever the pot held before: the sum over the players of \<open>anteOf\<close>, which is what their
  chips go down by.  When a deal is voided by a tied initial tonk, the deal is repeated
  from the reset state; each player's chips go down by that player's ante once more,
  the pot holds the antes of the repeated attempt only, and the total of chips and pot
  after the repeated attempt's antes is the total after the voided attempt's antes minus
  the voided attempt's pot.  The total strictly decreases when chips are non-negative and
  some non-eliminated player had chips at the voided attempt's antes; it stays the same
  when every non-eliminated player had none.
\<close>

theorem voided_deal_chips:
  "pot (collectAntes g) = sum_list (map anteOf (players g))
   \<and> map chips (players (collectAntes g)) = map (\<lambda>p. chips p - anteOf p) (players g)
   \<and> pot (collectAntes g)
       = sum_list (map chips (players g)) - sum_list (map chips (players (collectAntes g)))
   \<and> (1 < length (checkInitialTonk (dealAttempt g)) \<longrightarrow>
        dealAndCheckInitialTonk (rnd # rest) g
          = dealAndCheckInitialTonk rest (redealState rnd (dealAttempt g))
      \<and> map chips (players (dealAttempt (redealState rnd (dealAttempt g))))
          = map (\<lambda>p. chips p - anteOf p) (players (dealAttempt g))
      \<and> pot (dealAttempt (redealState rnd (dealAttempt g)))
          = sum_list (map anteOf (players (dealAttempt g)))
      \<and> chipsTotal (dealAttempt (redealState rnd (dealAttempt g)))
          = chipsTotal (dealAttempt g) - pot (dealAttempt g)
      \<and> ((\<forall>p\<in>set (players g). 0 \<le> chips p)
           \<and> (\<exists>p\<in>set (players g). \<not> isEliminated p \<and> 0 < chips p)
          \<longrightarrow> chipsTotal (dealAttempt (redealState rnd (dealAttempt g)))
                < chipsTotal (dealAttempt g))
      \<and> ((\<forall>p\<in>set (players g). isEliminated p \<or> chips p = 0)
          \<longrightarrow> chipsTotal (dealAttempt (redealState rnd (dealAttempt g)))
                = chipsTotal (dealAttempt g)))"
proof -
  let ?a = "dealAttempt g"
  let ?h = "redealState rnd ?a"
  let ?b = "dealAttempt ?h"
  have 1: "pot (collectAntes g) = sum_list (map anteOf (players g))"
    by (simp add: collectAntes_closed)
  have 2: "map chips (players (collectAntes g)) = map (\<lambda>p. chips p - anteOf p) (players g)"
    by (simp add: collectAntes_closed comp_def chips_afterAnte)
  have 3: "pot (collectAntes g)
       = sum_list (map chips (players g)) - sum_list (map chips (players (collectAntes g)))"
    unfolding 1 2 by (simp add: sum_list_minus)
  have la: "ledger ?a = ledger (collectAntes g)" by (rule ledger_dealAttempt)
  have lh: "ledger ?h = ledger ?a" by (rule ledger_redealState)
  have lb: "ledger ?b = ledger (collectAntes ?h)" by (rule ledger_dealAttempt)
  have pa: "pot ?a = sum_list (map anteOf (players g))"
    using ledger_pot [OF la] 1 by simp
  have cb: "map chips (players ?b) = map (\<lambda>p. chips p - anteOf p) (players ?a)"
    using ledger_chips [OF lb] ledger_chips_after [OF lh]
    by (simp add: collectAntes_closed comp_def chips_afterAnte)
  have pb: "pot ?b = sum_list (map anteOf (players ?a))"
    using ledger_pot [OF lb] ledger_anteOf [OF lh] by (simp add: collectAntes_closed)
  have ta: "chipsTotal ?a = sum_list (map chips (players g))"
    using ledger_chipsTotal [OF la] by (simp add: chipsTotal_collectAntes)
  have "chipsTotal ?b = sum_list (map chips (players ?h))"
    using ledger_chipsTotal [OF lb] by (simp add: chipsTotal_collectAntes)
  also have "\<dots> = sum_list (map chips (players ?a))"
    using ledger_chips [OF lh] by simp
  also have "\<dots> = chipsTotal ?a - pot ?a" by (simp add: chipsTotal_def)
  finally have tb: "chipsTotal ?b = chipsTotal ?a - pot ?a" .
  have strict: "chipsTotal ?b < chipsTotal ?a"
    if "\<forall>p\<in>set (players g). 0 \<le> chips p"
       "\<exists>p\<in>set (players g). \<not> isEliminated p \<and> 0 < chips p"
    using antes_positive [OF that] tb pa by simp
  have same: "chipsTotal ?b = chipsTotal ?a"
    if "\<forall>p\<in>set (players g). isEliminated p \<or> chips p = 0"
    using antes_zero [OF that] tb pa by simp
  have rec: "dealAndCheckInitialTonk (rnd # rest) g = dealAndCheckInitialTonk rest ?h"
    if "1 < length (checkInitialTonk ?a)"
    using that by (subst dealAndCheckInitialTonk_unfold) simp
  show ?thesis using 1 2 3 rec cb pb tb strict same by blast
qed

lemma rigged_deal_is_tied:
  "checkInitialTonk (dealAttempt (initialState seatId seatName riggedRnd 2 ''You'')) = [0, 1]"
  by code_simp

lemma broke_deal_is_tied: "checkInitialTonk (dealAttempt brokeGame) = [0, 1]"
  by code_simp

lemma initialState_chips:
  "map chips (players (initialState mkId aiNames rnd 2 nm)) = [1000, 1000]"
  "map isEliminated (players (initialState mkId aiNames rnd 2 nm)) = [False, False]"
  by (simp_all add: initialState_def newPlayer_def STARTING_CHIPS_def Let_def)

lemma brokeGame_chips:
  "map chips (players brokeGame) = [0, 0]"
  by (simp add: brokeGame_def gameWithHands_def)

theorem voided_deal_chips_witness:
  "1 < length (checkInitialTonk (dealAttempt (initialState seatId seatName riggedRnd 2 ''You'')))
   \<and> map chips (players (initialState seatId seatName riggedRnd 2 ''You'')) = [1000, 1000]
   \<and> map isEliminated (players (initialState seatId seatName riggedRnd 2 ''You''))
       = [False, False]
   \<and> chipsTotal (dealAttempt (redealState identityRnd
          (dealAttempt (initialState seatId seatName riggedRnd 2 ''You''))))
       < chipsTotal (dealAttempt (initialState seatId seatName riggedRnd 2 ''You''))
   \<and> 1 < length (checkInitialTonk (dealAttempt brokeGame))
   \<and> map chips (players brokeGame) = [0, 0]
   \<and> chipsTotal (dealAttempt (redealState identityRnd (dealAttempt brokeGame)))
       = chipsTotal (dealAttempt brokeGame)"
proof -
  let ?g = "initialState seatId seatName riggedRnd 2 ''You''"
  have h1: "1 < length (checkInitialTonk (dealAttempt ?g))"
    by (simp add: rigged_deal_is_tied)
  have h2: "\<forall>p\<in>set (players ?g). 0 \<le> chips p"
    by (simp add: initialState_def newPlayer_def STARTING_CHIPS_def Let_def)
  have h3: "\<exists>p\<in>set (players ?g). \<not> isEliminated p \<and> 0 < chips p"
    by (simp add: initialState_def newPlayer_def STARTING_CHIPS_def Let_def)
  have b1: "1 < length (checkInitialTonk (dealAttempt brokeGame))"
    by (simp add: broke_deal_is_tied)
  have b2: "\<forall>p\<in>set (players brokeGame). isEliminated p \<or> chips p = 0"
    by (simp add: brokeGame_def gameWithHands_def)
  have "chipsTotal (dealAttempt (redealState identityRnd (dealAttempt ?g)))
          < chipsTotal (dealAttempt ?g)"
    using h1 h2 h3 voided_deal_chips [of ?g identityRnd "[]"] by blast
  moreover have "chipsTotal (dealAttempt (redealState identityRnd (dealAttempt brokeGame)))
          = chipsTotal (dealAttempt brokeGame)"
    using b1 b2 voided_deal_chips [of brokeGame identityRnd "[]"] by blast
  ultimately show ?thesis
    using h1 b1 initialState_chips [of seatId seatName riggedRnd "''You''"] brokeGame_chips
    by simp
qed

text \<open>
  Two players with no chips, and a deck that deals fifty points to both: the deal is
  voided, and the total of chips and pot after the repeated attempt's antes is not
  below the total after the voided attempt's antes (both are 0).
\<close>

theorem voided_deal_total_counterexample:
  "1 < length (checkInitialTonk (dealAttempt brokeGame))
   \<and> \<not> chipsTotal (dealAttempt (redealState riggedRnd (dealAttempt brokeGame)))
        < chipsTotal (dealAttempt brokeGame)"
  by code_simp

section \<open>The initial tonk\<close>

lemma mset_swap_positions:
  "i < length xs \<Longrightarrow> j < length xs \<Longrightarrow> mset (swap i j xs) = mset xs"
  unfolding swap_def by (simp add: mset_swap)

lemma shuffleLoop_permutes:
  "k < length cs \<Longrightarrow> mset (shuffleLoop rnd k cs) = mset cs"
proof (induction k arbitrary: cs)
  case 0
  show ?case by simp
next
  case (Suc k)
  let ?cs' = "swap (Suc k) (rnd (Suc k) mod (Suc k + 1)) cs"
  have j: "rnd (Suc k) mod (Suc k + 1) < length cs"
  proof -
    have "rnd (Suc k) mod (Suc k + 1) < Suc k + 1" by simp
    with Suc.prems show ?thesis by linarith
  qed
  have m: "mset ?cs' = mset cs" using Suc.prems j by (rule mset_swap_positions)
  have "length ?cs' = length cs" by (simp add: swap_def)
  with Suc.prems have "k < length ?cs'" by simp
  from Suc.IH [OF this] m show ?case by simp
qed

lemma shuffle_permutes: "mset (shuffle rnd cs) = mset cs"
proof (cases cs)
  case Nil
  then show ?thesis by (simp add: shuffle_def)
next
  case (Cons c rest)
  then show ?thesis unfolding shuffle_def by (intro shuffleLoop_permutes) simp
qed

lemma currentPlayerIndex_dealAttempt:
  "currentPlayerIndex (dealAttempt g) = currentPlayerIndex g"
  using ledger_dealAttempt [of g] by (simp add: ledger_def collectAntes_closed)

lemma currentPlayerIndex_dealAndCheck:
  "dealAndCheckInitialTonk rnds g = Some g' \<Longrightarrow> currentPlayerIndex g' = currentPlayerIndex g"
proof (induction rnds arbitrary: g)
  case Nil
  then show ?case
    by (subst (asm) dealAndCheckInitialTonk_unfold)
       (auto simp: currentPlayerIndex_dealAttempt split: if_splits)
next
  case (Cons rnd rest)
  show ?case
  proof (cases "1 < length (checkInitialTonk (dealAttempt g))")
    case True
    with Cons.prems have "dealAndCheckInitialTonk rest (redealState rnd (dealAttempt g)) = Some g'"
      by (subst (asm) dealAndCheckInitialTonk_unfold) simp
    from Cons.IH [OF this] show ?thesis
      by (simp add: redealState_def currentPlayerIndex_dealAttempt)
  next
    case False
    with Cons.prems show ?thesis
      by (subst (asm) dealAndCheckInitialTonk_unfold)
         (auto simp: currentPlayerIndex_dealAttempt split: if_splits)
  qed
qed

text \<open>
  A point total is an initial tonk exactly when it is 49 or 50, and \<open>checkInitialTonk\<close>
  returns the seats whose hands total 49 or 50.
\<close>

lemma hasInitialTonk_iff: "hasInitialTonk pts \<longleftrightarrow> pts = 49 \<or> pts = 50"
  by (auto simp: hasInitialTonk_def INITIAL_TONK_MIN_def INITIAL_TONK_MAX_def)

lemma hasInitialTonk_bounds: "\<not> hasInitialTonk 48" "\<not> hasInitialTonk 51"
  by (simp_all add: hasInitialTonk_iff)

lemma checkInitialTonk_seats: "checkInitialTonk g = tonkSeats g"
  unfolding checkInitialTonk_def tonkSeats_def
  by (rule filter_cong) (simp_all add: hasInitialTonk_iff)

lemma four_totals:
  "map calculatePoints (players fourTotals) = [48, 49, 50, 51]
   \<and> checkInitialTonk fourTotals = [1, 2]"
  by code_simp

text \<open>
  After the deal, the seats whose hands total 49 or 50 decide: exactly one, and the
  round is over with that seat the winner by \<open>INITIAL_TONK\<close>; none, and the phase becomes
  \<open>START_OF_TURN\<close> for the seat that was current before the deal, which dealing does not
  change; more than one, and the deal is repeated from the state in which every hand
  is empty, the deck is a new shuffle of the 52 cards and the discard pile is empty.
\<close>

lemma one_tonk_ends_the_round:
  assumes "tonkSeats (dealAttempt g) = [w]"
  shows "dealAndCheckInitialTonk rnds g
           = Some ((dealAttempt g)\<lparr>winner := Some w, winCondition := Some INITIAL_TONK,
                                   phase := GAME_OVER\<rparr>)"
proof -
  have "checkInitialTonk (dealAttempt g) = [w]" using assms by (simp add: checkInitialTonk_seats)
  then show ?thesis by (subst dealAndCheckInitialTonk_unfold) simp
qed

lemma no_tonk_starts_the_turn:
  assumes "tonkSeats (dealAttempt g) = []"
  shows "dealAndCheckInitialTonk rnds g = Some ((dealAttempt g)\<lparr>phase := START_OF_TURN\<rparr>)"
    and "currentPlayerIndex (dealAttempt g) = currentPlayerIndex g"
proof -
  have "checkInitialTonk (dealAttempt g) = []" using assms by (simp add: checkInitialTonk_seats)
  then show "dealAndCheckInitialTonk rnds g = Some ((dealAttempt g)\<lparr>phase := START_OF_TURN\<rparr>)"
    by (subst dealAndCheckInitialTonk_unfold) simp
  show "currentPlayerIndex (dealAttempt g) = currentPlayerIndex g"
    by (rule currentPlayerIndex_dealAttempt)
qed

lemma tied_tonk_redeals:
  assumes "1 < length (tonkSeats (dealAttempt g))"
  shows "dealAndCheckInitialTonk (rnd # rest) g
           = dealAndCheckInitialTonk rest (redealState rnd (dealAttempt g))"
    and "map hand (players (redealState rnd (dealAttempt g))) = replicate (length (players g)) []"
    and "mset (cards (deck (redealState rnd (dealAttempt g)))) = mset generateDeck"
    and "discardPile (deck (redealState rnd (dealAttempt g))) = []"
proof -
  have "1 < length (checkInitialTonk (dealAttempt g))"
    using assms by (simp add: checkInitialTonk_seats)
  then show "dealAndCheckInitialTonk (rnd # rest) g
           = dealAndCheckInitialTonk rest (redealState rnd (dealAttempt g))"
    by (subst dealAndCheckInitialTonk_unfold) simp
  have len: "length (players (dealAttempt g)) = length (players g)"
  proof -
    have "length (map chips (players (dealAttempt g)))
            = length (map chips (players (collectAntes g)))"
      using ledger_chips [OF ledger_dealAttempt [of g]] by simp
    then show ?thesis by (simp add: collectAntes_closed)
  qed
  show "map hand (players (redealState rnd (dealAttempt g))) = replicate (length (players g)) []"
    unfolding len [symmetric]
    by (simp add: redealState_def Player_reset_def comp_def map_replicate_const)
  show "mset (cards (deck (redealState rnd (dealAttempt g)))) = mset generateDeck"
    by (simp add: redealState_def newDeck_def shuffle_permutes)
  show "discardPile (deck (redealState rnd (dealAttempt g))) = []"
    by (simp add: redealState_def newDeck_def)
qed

text \<open>
  The seat whose turn it is: \<open>initialize\<close> and \<open>reset\<close> set it to 0, \<open>startNextRound\<close> leaves
  it as the previous round left it.
\<close>

lemma initialize_starts_at_seat_0:
  assumes "initialize mkId aiNames rnds playerCount nm = Some g'"
  shows "currentPlayerIndex g' = 0"
proof (cases rnds)
  case Nil
  with assms show ?thesis by (simp add: initialize_def)
next
  case (Cons r rs)
  with assms have "dealAndCheckInitialTonk rs (initialState mkId aiNames r playerCount nm) = Some g'"
    by (simp add: initialize_def)
  from currentPlayerIndex_dealAndCheck [OF this] show ?thesis
    by (simp add: initialState_def Let_def)
qed

lemma reset_goes_to_seat_0: "currentPlayerIndex (reset g) = 0"
  by (simp add: reset_def)

lemma startNextRound_keeps_the_seat:
  assumes "startNextRound rnds g = Some g'"
  shows "currentPlayerIndex g' = currentPlayerIndex g"
proof (cases rnds)
  case Nil
  with assms show ?thesis by (simp add: startNextRound_def)
next
  case (Cons r rs)
  with assms have "dealAndCheckInitialTonk rs (nextRoundState r g) = Some g'"
    by (simp add: startNextRound_def)
  from currentPlayerIndex_dealAndCheck [OF this] show ?thesis
    by (simp add: nextRoundState_def)
qed

lemma solo_deal_has_one:
  "tonkSeats (dealAttempt (initialState seatId seatName soloRnd 2 ''You'')) = [0]"
  by code_simp

lemma ordered_deal_has_none:
  "tonkSeats (dealAttempt (initialState seatId seatName identityRnd 2 ''You'')) = []"
  by code_simp

lemma firstRound_returns: "firstRound \<noteq> None"
  by code_simp

text \<open>The three outcomes at three deals of two players.\<close>

lemma initial_tonk_examples:
  "dealAndCheckInitialTonk [] (initialState seatId seatName soloRnd 2 ''You'')
       = Some ((dealAttempt (initialState seatId seatName soloRnd 2 ''You''))
                 \<lparr>winner := Some 0, winCondition := Some INITIAL_TONK, phase := GAME_OVER\<rparr>)"
  "dealAndCheckInitialTonk [] (initialState seatId seatName identityRnd 2 ''You'')
       = Some ((dealAttempt (initialState seatId seatName identityRnd 2 ''You''))
                 \<lparr>phase := START_OF_TURN\<rparr>)"
  "dealAndCheckInitialTonk [identityRnd] (initialState seatId seatName riggedRnd 2 ''You'')
       = dealAndCheckInitialTonk []
           (redealState identityRnd (dealAttempt (initialState seatId seatName riggedRnd 2 ''You'')))"
proof -
  let ?rig = "initialState seatId seatName riggedRnd 2 ''You''"
  have r: "1 < length (tonkSeats (dealAttempt ?rig))"
    using rigged_deal_is_tied by (simp add: checkInitialTonk_seats [symmetric])
  show "dealAndCheckInitialTonk [] (initialState seatId seatName soloRnd 2 ''You'')
       = Some ((dealAttempt (initialState seatId seatName soloRnd 2 ''You''))
                 \<lparr>winner := Some 0, winCondition := Some INITIAL_TONK, phase := GAME_OVER\<rparr>)"
    using solo_deal_has_one by (rule one_tonk_ends_the_round)
  show "dealAndCheckInitialTonk [] (initialState seatId seatName identityRnd 2 ''You'')
       = Some ((dealAttempt (initialState seatId seatName identityRnd 2 ''You''))
                 \<lparr>phase := START_OF_TURN\<rparr>)"
    using ordered_deal_has_none by (rule no_tonk_starts_the_turn(1))
  show "dealAndCheckInitialTonk [identityRnd] ?rig
       = dealAndCheckInitialTonk [] (redealState identityRnd (dealAttempt ?rig))"
    using r by (rule tied_tonk_redeals(1))
qed

text \<open>
  C4.  When nobody has an initial tonk, play does not always proceed to \<open>START_OF_TURN\<close>
  for seat 0.  The first round of the match, dealt by \<open>initialize\<close>, starts at seat 0.
  Seat 0 draws and discards, seat 1 knocks and wins, and \<open>startNextRound\<close> deals the
  second round: the hands total 41 and 38, nobody has an initial tonk, and the phase
  is \<open>START_OF_TURN\<close> for seat 1.
\<close>

theorem second_round_starts_at_seat_1:
  "map_option phase firstRound = Some START_OF_TURN
   \<and> map_option currentPlayerIndex firstRound = Some 0
   \<and> map_option roundNumber secondRound = Some 2
   \<and> map_option (map calculatePoints \<circ> players) secondRound = Some [41, 38]
   \<and> map_option checkInitialTonk secondRound = Some []
   \<and> map_option phase secondRound = Some START_OF_TURN
   \<and> map_option currentPlayerIndex secondRound = Some 1"
  by code_simp

section \<open>Cards the current player does not hold\<close>

text \<open>
  What holds of the guards: every operation with a phase guard throws in a wrong
  phase, \<open>laySpread\<close> throws on an invalid spread, and \<open>discard\<close> throws on a card that is
  not in the current player's hand.
\<close>

lemma wrong_phase_is_rejected:
  "phase g \<noteq> START_OF_TURN \<Longrightarrow> isl (proceedToDraw g)"
  "phase g \<noteq> START_OF_TURN \<Longrightarrow> isl (knock g)"
  "phase g \<noteq> DRAW \<Longrightarrow> isl (drawFromDeck g)"
  "phase g \<noteq> DRAW \<Longrightarrow> isl (drawFromDiscard g)"
  "phase g \<noteq> ACTION \<Longrightarrow> isl (discard c g)"
  "phase g \<noteq> ACTION \<Longrightarrow> phase g \<noteq> START_OF_TURN \<Longrightarrow> isl (laySpread arg g)"
  "phase g \<noteq> ACTION \<Longrightarrow> phase g \<noteq> START_OF_TURN \<Longrightarrow> isl (hitSpread c a g)"
  by (simp_all add: proceedToDraw_def knock_def drawFromDeck_def drawFromDiscard_def
      discard_def laySpread_def hitSpread_def split: option.splits)

lemma invalid_spread_is_rejected:
  "argCards arg g = Some cs \<Longrightarrow> \<not> valid (validate cs) \<Longrightarrow> isl (laySpread arg g)"
  by (simp add: laySpread_def Let_def)

lemma findIndex_absent: "findIndex P xs = -1 \<longleftrightarrow> \<not> list_ex P xs"
proof (induction xs)
  case Nil
  show ?case by simp
next
  case (Cons x xs)
  have "0 \<le> findIndex P xs \<or> findIndex P xs = -1"
    by (induction xs) (auto simp: Let_def)
  with Cons show ?case by (auto simp: Let_def)
qed

lemma discard_of_unowned_is_rejected:
  assumes "getCurrentPlayer g = Some p" and "\<not> hasCard p c"
  shows "isl (discard c g)"
proof -
  have "removeCard p c = (None, p)"
    using assms(2) findIndex_absent [of "\<lambda>x. equals x c" "hand p"]
    by (simp add: removeCard_def hasCard_def Let_def)
  then show ?thesis using assms(1) by (simp add: discard_def)
qed

text \<open>
  C1.  \<open>laySpread\<close> and \<open>hitSpread\<close> accept cards the current player does not hold.  In
  the first round seat 0 holds K, J, 9, 7, 5 of spades and
  the table is empty.  \<open>laySpread\<close> with the aces of hearts, diamonds and clubs, none of
  them in that hand, is not rejected: it returns a spread, the hand is as before and
  the table has a new book of three aces.  \<open>hitSpread\<close> of that book with the ace of
  spades, not in the hand either, is not rejected and makes it a book of four.
\<close>

theorem unowned_cards_are_accepted:
  "map_option (handOf 0) firstRound
     = Some [Card Spades King, Card Spades Jack, Card Spades R9, Card Spades R7, Card Spades R5]
   \<and> map_option spreadsOnTable firstRound = Some []
   \<and> map_option (map_sum id (handOf 0)) laidFromNowhere
     = Some (Inr [Card Spades King, Card Spades Jack, Card Spades R9, Card Spades R7,
                  Card Spades R5])
   \<and> map_option (map_sum id spreadsOnTable) laidFromNowhere = Some (Inr [0])
   \<and> map_option (map_sum id spreadStore) laidFromNowhere
     = Some (Inr [\<lparr>scards = [Card Hearts Ace, Card Diamonds Ace, Card Clubs Ace],
                   stype = Some Book, sowner = 0\<rparr>])
   \<and> map_option (map_sum id (handOf 0)) hitFromNowhere
     = Some (Inr [Card Spades King, Card Spades Jack, Card Spades R9, Card Spades R7,
                  Card Spades R5])
   \<and> map_option (map_sum id spreadStore) hitFromNowhere
     = Some (Inr [\<lparr>scards = [Card Hearts Ace, Card Diamonds Ace, Card Clubs Ace, Card Spades Ace],
                   stype = Some Book, sowner = 0\<rparr>])"
  by code_simp

text \<open>
  C2.  Cards that are played without being held are in the game twice.  After the
  deal of the first round the cards of the game
  are the 52 of the deck, each once.  After the \<open>laySpread\<close> above they are not: the ace
  of hearts is in the stock and on the table.  After the \<open>hitSpread\<close> above the ace of
  spades is there twice as well.
\<close>

theorem unowned_cards_are_duplicated:
  "map_option allCards firstRound = Some (mset generateDeck)
   \<and> map_option (map_sum id (copiesOf (Card Hearts Ace))) laidFromNowhere = Some (Inr 2)
   \<and> map_option (map_sum id allCards) laidFromNowhere \<noteq> Some (Inr (mset generateDeck))
   \<and> map_option (map_sum id (copiesOf (Card Spades Ace))) hitFromNowhere = Some (Inr 2)"
  by code_simp

section \<open>Card conservation when the cards played are held\<close>

lemma sum_hands_update:
  assumes "i < length ps"
  shows "sum_list (map (\<lambda>p. mset (hand p)) (ps[i := q])) + mset (hand (ps ! i))
           = sum_list (map (\<lambda>p. mset (hand p)) ps) + mset (hand q)"
proof -
  have a: "ps = take i ps @ ps ! i # drop (Suc i) ps"
    using assms by (rule id_take_nth_drop)
  have b: "ps[i := q] = take i ps @ q # drop (Suc i) ps"
    using assms by (rule upd_conv_take_nth_drop)
  have "sum_list (map (\<lambda>p. mset (hand p)) ps)
          = sum_list (map (\<lambda>p. mset (hand p)) (take i ps)) + mset (hand (ps ! i))
            + sum_list (map (\<lambda>p. mset (hand p)) (drop (Suc i) ps))"
    by (subst a) simp
  moreover have "sum_list (map (\<lambda>p. mset (hand p)) (ps[i := q]))
          = sum_list (map (\<lambda>p. mset (hand p)) (take i ps)) + mset (hand q)
            + sum_list (map (\<lambda>p. mset (hand p)) (drop (Suc i) ps))"
    by (subst b) simp
  ultimately show ?thesis by (simp add: ac_simps)
qed

lemma sum_hands_same:
  assumes "i < length ps" and "hand q = hand (ps ! i)"
  shows "sum_list (map (\<lambda>p. mset (hand p)) (ps[i := q]))
           = sum_list (map (\<lambda>p. mset (hand p)) ps)"
  using sum_hands_update [OF assms(1), of q] assms(2) by simp

lemma mset_butlast_last: "cs \<noteq> [] \<Longrightarrow> mset (butlast cs) + {#last cs#} = mset cs"
  by (metis append_butlast_last_id mset.simps(1) mset.simps(2) mset_append union_mset_add_mset_right add.right_neutral)

lemma allCards_dealStep:
  assumes "i < length (players g)"
  shows "allCards (dealStep i g) = allCards g"
proof (cases "cards (deck g) = []")
  case True
  then show ?thesis by (simp add: dealStep_def Deck_draw_def)
next
  case False
  let ?c = "last (cards (deck g))"
  let ?q = "Player_addCard (players g ! i) ?c"
  have step: "dealStep i g
      = g\<lparr>deck := (deck g)\<lparr>cards := butlast (cards (deck g))\<rparr>, players := (players g)[i := ?q]\<rparr>"
    using False by (simp add: dealStep_def Deck_draw_def)
  have h: "sum_list (map (\<lambda>p. mset (hand p)) ((players g)[i := ?q]))
             = sum_list (map (\<lambda>p. mset (hand p)) (players g)) + {#?c#}"
    using sum_hands_update [OF assms, of ?q] by (simp add: Player_addCard_def)
  show ?thesis
    unfolding step allCards_def using h mset_butlast_last [OF False] by (simp add: ac_simps)
qed

lemma tableView_dealStep: "tableView (dealStep i g) = tableView g"
  by (simp add: dealStep_def tableView_def split: prod.splits option.splits)

lemma deal_fold:
  "\<forall>i\<in>set is. i < length (players g) \<Longrightarrow>
     allCards (fold dealStep is g) = allCards g \<and> tableView (fold dealStep is g) = tableView g"
proof (induction "is" arbitrary: g)
  case Nil
  show ?case by simp
next
  case (Cons i "is")
  have "length (players (dealStep i g)) = length (players g)"
    using tableView_dealStep [of i g] by (simp add: tableView_def)
  with Cons.prems have "\<forall>j\<in>set is. j < length (players (dealStep i g))" by simp
  from Cons.IH [OF this] show ?case
    using Cons.prems by (simp add: allCards_dealStep tableView_dealStep)
qed

lemma dealPass_conserves:
  "allCards (dealPass g) = allCards g \<and> tableView (dealPass g) = tableView g"
  unfolding dealPass_def by (rule deal_fold) simp

lemma dealPasses_conserve:
  "allCards ((dealPass ^^ n) g) = allCards g \<and> tableView ((dealPass ^^ n) g) = tableView g"
  by (induction n) (simp_all add: dealPass_conserves)

lemma deal_conserves: "allCards (deal g) = allCards g \<and> tableView (deal g) = tableView g"
proof -
  let ?g1 = "(dealPass ^^ getCardsPerPlayer (length (players g))) g"
  have g1: "allCards ?g1 = allCards g" "tableView ?g1 = tableView g"
    using dealPasses_conserve by simp_all
  show ?thesis
  proof (cases "cards (deck ?g1) = []")
    case True
    then have "deal g = ?g1\<lparr>deck := deck ?g1\<rparr>"
      by (simp add: deal_def Deck_draw_def Let_def)
    then show ?thesis using g1 by (simp add: allCards_def tableView_def)
  next
    case False
    let ?c = "last (cards (deck ?g1))"
    have d: "deal g = ?g1\<lparr>deck := Deck_discard ((deck ?g1)\<lparr>cards := butlast (cards (deck ?g1))\<rparr>) ?c\<rparr>"
      using False by (simp add: deal_def Deck_draw_def Let_def)
    have "allCards (deal g) = allCards ?g1"
      unfolding d allCards_def using mset_butlast_last [OF False]
      by (simp add: Deck_discard_def ac_simps)
    moreover have "tableView (deal g) = tableView ?g1"
      unfolding d by (simp add: tableView_def)
    ultimately show ?thesis using g1 by simp
  qed
qed

lemma hand_afterAnte: "hand (afterAnte p) = hand p"
  by (simp add: afterAnte_def bet_def resetBet_def Let_def)

lemma collectAntes_conserves:
  "allCards (collectAntes g) = allCards g \<and> tableView (collectAntes g) = tableView g"
  by (simp add: collectAntes_closed allCards_def tableView_def comp_def hand_afterAnte)

lemma dealAttempt_conserves:
  "allCards (dealAttempt g) = allCards g \<and> tableView (dealAttempt g) = tableView g"
proof -
  have "allCards (dealAttempt g) = allCards (deal (collectAntes g))"
    by (simp add: dealAttempt_def allCards_def)
  moreover have "tableView (dealAttempt g) = tableView (deal (collectAntes g))"
    by (simp add: dealAttempt_def tableView_def)
  ultimately show ?thesis
    using deal_conserves [of "collectAntes g"] collectAntes_conserves [of g] by simp
qed

lemma no_cards_in_reset_hands:
  "sum_list (map ((\<lambda>p. mset (hand p)) \<circ> f) ps) = {#}" if "\<And>p. hand (f p) = []"
  using that by (induction ps) simp_all

lemma redealState_conserves:
  assumes "spreadsOnTable g = []"
  shows "allCards (redealState rnd g) = mset generateDeck"
    and "tableView (redealState rnd g) = tableView g"
  using assms
  by (simp_all add: redealState_def allCards_def tableView_def newDeck_def shuffle_permutes
      no_cards_in_reset_hands Player_reset_def)

lemma dealAndCheck_conserves:
  "allCards g = mset generateDeck \<Longrightarrow> spreadsOnTable g = [] \<Longrightarrow>
   dealAndCheckInitialTonk rnds g = Some g' \<Longrightarrow>
     allCards g' = mset generateDeck \<and> tableView g' = tableView g"
proof (induction rnds arbitrary: g)
  case Nil
  then show ?case
    using dealAttempt_conserves [of g]
    by (subst (asm) dealAndCheckInitialTonk_unfold)
       (auto simp: allCards_def tableView_def split: if_splits)
next
  case (Cons rnd rest)
  show ?case
  proof (cases "1 < length (checkInitialTonk (dealAttempt g))")
    case True
    let ?h = "redealState rnd (dealAttempt g)"
    have t: "spreadsOnTable (dealAttempt g) = []"
      using dealAttempt_conserves [of g] Cons.prems(2) by (simp add: tableView_def)
    from True Cons.prems(3) have r: "dealAndCheckInitialTonk rest ?h = Some g'"
      by (subst (asm) dealAndCheckInitialTonk_unfold) simp
    have "allCards ?h = mset generateDeck" using t by (rule redealState_conserves)
    moreover have tv: "tableView ?h = tableView g"
      using redealState_conserves(2) [OF t] dealAttempt_conserves [of g] by simp
    moreover from tv Cons.prems(2) have "spreadsOnTable ?h = []" by (simp add: tableView_def)
    ultimately show ?thesis using Cons.IH [OF _ _ r] tv by simp
  next
    case False
    with Cons.prems show ?thesis
      using dealAttempt_conserves [of g]
      by (subst (asm) dealAndCheckInitialTonk_unfold)
         (auto simp: allCards_def tableView_def split: if_splits)
  qed
qed

lemma initialState_conserves:
  "allCards (initialState mkId aiNames rnd n nm) = mset generateDeck"
  "spreadsOnTable (initialState mkId aiNames rnd n nm) = []"
  "currentPlayerIndex (initialState mkId aiNames rnd n nm)
     < length (players (initialState mkId aiNames rnd n nm))"
proof -
  have "sum_list (map (\<lambda>p. mset (hand p)) (players (initialState mkId aiNames rnd n nm))) = {#}"
    by (simp add: initialState_def Let_def newPlayer_def comp_def)
  then show "allCards (initialState mkId aiNames rnd n nm) = mset generateDeck"
    by (simp add: allCards_def initialState_def Let_def newDeck_def shuffle_permutes)
qed (simp_all add: initialState_def Let_def)

lemma allCards_eqI:
  assumes "deck g' = deck g" and "map hand (players g') = map hand (players g)"
    and "spreadStore g' = spreadStore g" and "spreadsOnTable g' = spreadsOnTable g"
  shows "allCards g' = allCards g"
proof -
  have "map (\<lambda>p. mset (hand p)) (players g') = map mset (map hand (players g'))" by simp
  also have "\<dots> = map (\<lambda>p. mset (hand p)) (players g)" using assms(2) by simp
  finally show ?thesis using assms(1,3,4) by (simp add: allCards_def)
qed

lemma conserved_frame:
  assumes "conserved g" and "deck g' = deck g" and "map hand (players g') = map hand (players g)"
    and "spreadStore g' = spreadStore g" and "spreadsOnTable g' = spreadsOnTable g"
    and "currentPlayerIndex g' = currentPlayerIndex g"
  shows "conserved g'"
proof -
  have "length (map hand (players g')) = length (map hand (players g))" using assms(3) by simp
  then have "length (players g') = length (players g)" by simp
  then show ?thesis
    using assms allCards_eqI [OF assms(2,3,4,5)] by (simp add: conserved_def tableSound_def)
qed

lemma map_hand_update_same:
  "hand q = hand (ps ! i) \<Longrightarrow> map hand (ps[i := q]) = map hand ps"
  by (metis map_update list_update_id)

lemma equals_iff: "equals x c \<longleftrightarrow> x = c"
  by (cases x; cases c) (auto simp: equals_def)

lemma findIndex_found:
  "list_ex P xs \<Longrightarrow>
     0 \<le> findIndex P xs \<and> nat (findIndex P xs) < length xs \<and> P (xs ! nat (findIndex P xs))"
proof (induction xs)
  case Nil
  then show ?case by simp
next
  case (Cons x xs)
  show ?case
  proof (cases "P x")
    case True
    then show ?thesis by simp
  next
    case False
    with Cons.prems have "list_ex P xs" by simp
    from Cons.IH [OF this] have k: "0 \<le> findIndex P xs" "nat (findIndex P xs) < length xs"
      "P (xs ! nat (findIndex P xs))" by simp_all
    have "nat (findIndex P xs + 1) = Suc (nat (findIndex P xs))" using k(1) by simp
    then show ?thesis using False k by (simp add: Let_def)
  qed
qed

lemma removeCard_hand: "mset (hand (snd (removeCard p c))) = mset (hand p) - {#c#}"
proof (cases "list_ex (\<lambda>x. equals x c) (hand p)")
  case True
  let ?i = "nat (findIndex (\<lambda>x. equals x c) (hand p))"
  from findIndex_found [OF True] have f: "0 \<le> findIndex (\<lambda>x. equals x c) (hand p)"
    "?i < length (hand p)" "hand p ! ?i = c" by (simp_all add: equals_iff)
  have h: "hand (snd (removeCard p c)) = take ?i (hand p) @ drop (Suc ?i) (hand p)"
    using f(1) by (simp add: removeCard_def Let_def)
  have "mset (hand p) = mset (take ?i (hand p) @ hand p ! ?i # drop (Suc ?i) (hand p))"
    using id_take_nth_drop [OF f(2)] by simp
  then show ?thesis unfolding h f(3) by simp
next
  case False
  then have "findIndex (\<lambda>x. equals x c) (hand p) = -1" by (simp add: findIndex_absent)
  then have h: "hand (snd (removeCard p c)) = hand p" by (simp add: removeCard_def)
  from False have "c \<notin> set (hand p)" by (auto simp: list_ex_iff equals_iff)
  then show ?thesis unfolding h by simp
qed

lemma removeCard_Some:
  "removeCard p c = (Some rc, p1) \<Longrightarrow> rc = c \<and> c \<in> set (hand p)"
proof -
  assume a: "removeCard p c = (Some rc, p1)"
  then have ne: "findIndex (\<lambda>x. equals x c) (hand p) \<noteq> -1"
    by (auto simp: removeCard_def Let_def split: if_splits)
  then have ex: "list_ex (\<lambda>x. equals x c) (hand p)" by (simp add: findIndex_absent)
  from findIndex_found [OF ex] have "hand p ! nat (findIndex (\<lambda>x. equals x c) (hand p)) = c"
    by (simp add: equals_iff)
  moreover from a ne have "rc = hand p ! nat (findIndex (\<lambda>x. equals x c) (hand p))"
    by (auto simp: removeCard_def Let_def)
  moreover from ex have "c \<in> set (hand p)" by (auto simp: list_ex_iff equals_iff)
  ultimately show ?thesis by simp
qed

lemma removeCardsLoop_hand:
  "mset (hand (snd (removeCardsLoop cs (r, p)))) = mset (hand p) - mset cs"
proof (induction cs arbitrary: r p)
  case Nil
  show ?case by simp
next
  case (Cons c cs)
  obtain x p1 where rc: "removeCard p c = (x, p1)" by (cases "removeCard p c")
  then have h1: "mset (hand p1) = mset (hand p) - {#c#}"
    using removeCard_hand [of p c] by simp
  have "mset (hand (snd (removeCardsLoop (c # cs) (r, p)))) = mset (hand p1) - mset cs"
    using rc Cons.IH by (cases x) simp_all
  then show ?case unfolding h1 by simp
qed

lemma removeCards_hand: "mset (hand (snd (removeCards p cs))) = mset (hand p) - mset cs"
  by (simp add: removeCards_def removeCardsLoop_hand)

lemma Spread_addCard_cards:
  "Spread_addCard s c = Inr s1 \<Longrightarrow> mset (scards s1) = mset (scards s) + {#c#}"
  by (auto simp: Spread_addCard_def Let_def sortByRank_def split: sum.splits bool.splits if_splits)

lemma table_sum_new:
  assumes "list_all (\<lambda>a. a < length store) table"
  shows "sum_list (map (\<lambda>b. mset (scards ((store @ [sp]) ! b))) (table @ [length store]))
           = sum_list (map (\<lambda>b. mset (scards (store ! b))) table) + mset (scards sp)"
proof -
  have "map (\<lambda>b. mset (scards ((store @ [sp]) ! b))) table
          = map (\<lambda>b. mset (scards (store ! b))) table"
    using assms by (intro map_cong) (auto simp: list_all_iff nth_append)
  then have "sum_list (map (\<lambda>b. mset (scards ((store @ [sp]) ! b))) table)
          = sum_list (map (\<lambda>b. mset (scards (store ! b))) table)"
    by (rule arg_cong)
  then show ?thesis by simp
qed

lemma table_sum_hit:
  assumes "distinct table" and "a \<in> set table" and "a < length store"
    and "mset (scards s1) = mset (scards (store ! a)) + {#c#}"
  shows "sum_list (map (\<lambda>b. mset (scards (store[a := s1] ! b))) table)
           = sum_list (map (\<lambda>b. mset (scards (store ! b))) table) + {#c#}"
  using assms(1,2)
proof (induction table)
  case Nil
  then show ?case by simp
next
  case (Cons b table)
  show ?case
  proof (cases "b = a")
    case True
    with Cons.prems have "a \<notin> set table" by simp
    then have "map (\<lambda>b. mset (scards (store[a := s1] ! b))) table
                 = map (\<lambda>b. mset (scards (store ! b))) table"
      by (intro map_cong refl) (metis nth_list_update_neq)
    then have "sum_list (map (\<lambda>b. mset (scards (store[a := s1] ! b))) table)
                 = sum_list (map (\<lambda>b. mset (scards (store ! b))) table)"
      by (rule arg_cong)
    then show ?thesis using True assms(3,4) by simp
  next
    case False
    with Cons.prems have "distinct table" "a \<in> set table" by auto
    from Cons.IH [OF this] show ?thesis using False by simp
  qed
qed

lemma conserved_proceedToDraw: "conserved g \<Longrightarrow> proceedToDraw g = Inr g' \<Longrightarrow> conserved g'"
  by (rule conserved_frame [of g]) (auto simp: proceedToDraw_def split: if_splits)

lemma conserved_knock: "conserved g \<Longrightarrow> knock g = Inr g' \<Longrightarrow> conserved g'"
  by (rule conserved_frame [of g])
     (auto simp: knock_def Let_def split: if_splits option.splits prod.splits)

lemma conserved_scoring: "conserved g \<Longrightarrow> applyRoundScoring g = (g', losers) \<Longrightarrow> conserved g'"
  by (rule conserved_frame [of g]) (auto simp: applyRoundScoring_def split: prod.splits)

lemma conserved_placeBet: "conserved g \<Longrightarrow> placeBet i amount g = Inr (g', r) \<Longrightarrow> conserved g'"
  by (rule conserved_frame [of g])
     (auto simp: placeBet_def Let_def bet_def map_hand_update_same split: if_splits)

lemma conserved_awardPot: "conserved g \<Longrightarrow> awardPot w g = Inr (g', r) \<Longrightarrow> conserved g'"
  by (rule conserved_frame [of g])
     (auto simp: awardPot_def Let_def receiveChips_def map_hand_update_same split: if_splits)

lemma conserved_endGameStockEmpty:
  "conserved g \<Longrightarrow> endGameStockEmpty g = Inr g' \<Longrightarrow> conserved g'"
  by (rule conserved_frame [of g])
     (auto simp: endGameStockEmpty_def Let_def split: if_splits prod.splits)

lemma conserved_drawFromDeck:
  assumes "conserved g" and "drawFromDeck g = Inr (g', r)"
  shows "conserved g'"
proof (cases "cards (deck g) = []")
  case True
  then have "Deck_draw (deck g) = (None, deck g)" by (simp add: Deck_draw_def)
  with assms(2) have "endGameStockEmpty g = Inr g'"
    by (auto simp: drawFromDeck_def split: if_splits sum.splits)
  with assms(1) show ?thesis by (rule conserved_endGameStockEmpty)
next
  case False
  let ?i = "currentPlayerIndex g"
  let ?c = "last (cards (deck g))"
  let ?q = "Player_addCard (players g ! ?i) ?c"
  have i: "?i < length (players g)" using assms(1) by (simp add: conserved_def tableSound_def)
  have dr: "Deck_draw (deck g) = (Some ?c, (deck g)\<lparr>cards := butlast (cards (deck g))\<rparr>)"
    using False by (simp add: Deck_draw_def)
  from assms(2) dr i have g': "deck g' = (deck g)\<lparr>cards := butlast (cards (deck g))\<rparr>"
    "players g' = (players g)[?i := ?q]" "spreadStore g' = spreadStore g"
    "spreadsOnTable g' = spreadsOnTable g" "currentPlayerIndex g' = ?i"
    by (auto simp: drawFromDeck_def split: if_splits)
  have h: "sum_list (map (\<lambda>p. mset (hand p)) ((players g)[?i := ?q]))
             = sum_list (map (\<lambda>p. mset (hand p)) (players g)) + {#?c#}"
    using sum_hands_update [OF i, of ?q] by (simp add: Player_addCard_def)
  have "allCards g' = allCards g"
    unfolding allCards_def g' using h mset_butlast_last [OF False] by (simp add: ac_simps)
  then show ?thesis using assms(1) g' by (simp add: conserved_def tableSound_def)
qed

lemma conserved_drawFromDiscard:
  assumes "conserved g" and "drawFromDiscard g = Inr (g', r)"
  shows "conserved g'"
proof -
  have ph: "phase g = DRAW"
    using assms(2) by (cases "phase g = DRAW") (simp_all add: drawFromDiscard_def)
  have i: "currentPlayerIndex g < length (players g)"
    using assms(1) by (simp add: conserved_def tableSound_def)
  show ?thesis
  proof (cases "discardPile (deck g) = []")
    case True
    have e: "drawFromDiscard g = Inr (g, None)"
      using ph True by (simp add: drawFromDiscard_def Deck_drawFromDiscard_def)
    have "g' = g" using assms(2) unfolding e by simp
    then show ?thesis using assms(1) by simp
  next
    case False
    let ?i = "currentPlayerIndex g"
    let ?c = "last (discardPile (deck g))"
    let ?q = "Player_addCard (players g ! ?i) ?c"
    let ?g' = "g\<lparr>deck := (deck g)\<lparr>discardPile := butlast (discardPile (deck g))\<rparr>,
                 players := (players g)[?i := ?q],
                 hasDrawnThisTurn := True,
                 turnActions := turnActions g @ [DrawAction FromDiscard ?c],
                 phase := ACTION\<rparr>"
    have e: "drawFromDiscard g = Inr (?g', Some ?c)"
      using ph False i by (simp add: drawFromDiscard_def Deck_drawFromDiscard_def)
    have g': "g' = ?g'" using assms(2) unfolding e by simp
    have h: "sum_list (map (\<lambda>p. mset (hand p)) ((players g)[?i := ?q]))
               = sum_list (map (\<lambda>p. mset (hand p)) (players g)) + {#?c#}"
      using sum_hands_update [OF i, of ?q] by (simp add: Player_addCard_def)
    have "allCards ?g' = allCards g"
      unfolding allCards_def using h mset_butlast_last [OF False] by (simp add: ac_simps)
    then show ?thesis unfolding g' using assms(1) by (simp add: conserved_def tableSound_def)
  qed
qed

lemma hands_after_removal:
  assumes "i < length ps" and "mset (hand q) = mset (hand (ps ! i)) - M"
    and "M \<subseteq># mset (hand (ps ! i))"
  shows "sum_list (map (\<lambda>p. mset (hand p)) (ps[i := q])) + M
           = sum_list (map (\<lambda>p. mset (hand p)) ps)"
proof -
  define S' where "S' = sum_list (map (\<lambda>p. mset (hand p)) (ps[i := q]))"
  define S where "S = sum_list (map (\<lambda>p. mset (hand p)) ps)"
  define H where "H = mset (hand (ps ! i))"
  have u: "S' + H = S + (H - M)"
    using sum_hands_update [OF assms(1), of q] assms(2) by (simp add: S'_def S_def H_def)
  have eq: "H = (H - M) + M"
    using assms(3) by (simp add: H_def subset_mset.diff_add)
  have "S' + M + (H - M) = S' + ((H - M) + M)" by (simp add: ac_simps)
  also have "\<dots> = S' + H" using eq by simp
  also have "\<dots> = S + (H - M)" by (rule u)
  finally have "S' + M = S" by simp
  then show ?thesis by (simp add: S'_def S_def)
qed

lemma conserved_discard:
  assumes "conserved g" and "discard c g = Inr g'"
  shows "conserved g'"
proof -
  let ?i = "currentPlayerIndex g"
  let ?p = "players g ! ?i"
  have i: "?i < length (players g)" using assms(1) by (simp add: conserved_def tableSound_def)
  then have cp: "getCurrentPlayer g = Some ?p" by (simp add: getCurrentPlayer_def)
  obtain x p1 where rc: "removeCard ?p c = (x, p1)" by (cases "removeCard ?p c")
  with assms(2) cp obtain rc' where x: "x = Some rc'"
    by (cases x) (auto simp: discard_def split: if_splits)
  from removeCard_Some [OF rc [unfolded x]] have rc': "rc' = c" and mem: "c \<in> set (hand ?p)"
    by simp_all
  have h1: "mset (hand p1) = mset (hand ?p) - {#c#}"
    using removeCard_hand [of ?p c] rc by simp
  from assms(2) cp rc x rc' have g': "deck g' = Deck_discard (deck g) c"
    "players g' = (players g)[?i := p1]" "spreadStore g' = spreadStore g"
    "spreadsOnTable g' = spreadsOnTable g"
    "currentPlayerIndex g' = ?i \<or> currentPlayerIndex g' = (?i + 1) mod length (players g)"
    by (auto simp: discard_def Let_def endTurn_def split: if_splits)
  have "sum_list (map (\<lambda>p. mset (hand p)) ((players g)[?i := p1])) + {#c#}
          = sum_list (map (\<lambda>p. mset (hand p)) (players g))"
    using i h1 mem by (intro hands_after_removal) simp_all
  then have "allCards g' = allCards g"
    unfolding allCards_def g'(1-4) by (simp add: Deck_discard_def ac_simps)
  moreover have "currentPlayerIndex g' < length (players g')"
  proof -
    have "0 < length (players g)" using i by (cases "players g") simp_all
    then have "(?i + 1) mod length (players g) < length (players g)" by simp
    then show ?thesis using g'(2,5) i by auto
  qed
  ultimately show ?thesis using assms(1) g'(3,4) by (simp add: conserved_def tableSound_def)
qed

lemma conserved_laySpread:
  assumes "conserved g" and "getCurrentPlayer g = Some p" and "mset cs \<subseteq># mset (hand p)"
    and "laySpread (OwnArray cs) g = Inr (g', a)"
  shows "conserved g'"
proof -
  let ?i = "currentPlayerIndex g"
  let ?n = "length (spreadStore g)"
  let ?q = "addSpread (snd (removeCards p cs)) ?n"
  have i: "?i < length (players g)" and p: "p = players g ! ?i"
    using assms(2) by (auto simp: getCurrentPlayer_def split: if_splits)
  have ts: "distinct (spreadsOnTable g)"
    "list_all (\<lambda>a. a < ?n) (spreadsOnTable g)"
    using assms(1) by (simp_all add: conserved_def tableSound_def)
  from assms(4,2) obtain sp where g': "deck g' = deck g" "players g' = (players g)[?i := ?q]"
    "spreadStore g' = spreadStore g @ [sp]" "scards sp = cs"
    "spreadsOnTable g' = spreadsOnTable g @ [?n]" "currentPlayerIndex g' = ?i"
    by (auto simp: laySpread_def argCards_def Let_def split: if_splits prod.splits)
  have hq: "mset (hand ?q) = mset (hand (players g ! ?i)) - mset cs"
    using removeCards_hand [of p cs] by (simp add: addSpread_def p)
  have hands: "sum_list (map (\<lambda>p. mset (hand p)) ((players g)[?i := ?q])) + mset cs
          = sum_list (map (\<lambda>p. mset (hand p)) (players g))"
    using i hq assms(3) unfolding p by (rule hands_after_removal)
  have table: "sum_list (map (\<lambda>b. mset (scards ((spreadStore g @ [sp]) ! b)))
                   (spreadsOnTable g @ [?n]))
          = sum_list (map (\<lambda>b. mset (scards (spreadStore g ! b))) (spreadsOnTable g)) + mset cs"
    using table_sum_new [OF ts(2), of sp] g'(4) by simp
  have "allCards g' = allCards g"
    unfolding allCards_def g'(1,2,3,5) table using hands by (simp add: ac_simps)
  moreover have "distinct (spreadsOnTable g @ [?n])"
    using ts by (auto simp: list_all_iff)
  moreover have "list_all (\<lambda>a. a < length (spreadStore g @ [sp])) (spreadsOnTable g @ [?n])"
    using ts(2) by (auto simp: list_all_iff)
  ultimately show ?thesis
    using assms(1) g' i by (simp add: conserved_def tableSound_def)
qed

lemma conserved_hitSpread:
  assumes "conserved g" and "getCurrentPlayer g = Some p" and "c \<in> set (hand p)"
    and "a \<in> set (spreadsOnTable g)" and "hitSpread c a g = Inr g'"
  shows "conserved g'"
proof -
  let ?i = "currentPlayerIndex g"
  let ?q = "snd (removeCard p c)"
  have i: "?i < length (players g)" and p: "p = players g ! ?i"
    using assms(2) by (auto simp: getCurrentPlayer_def split: if_splits)
  have ts: "distinct (spreadsOnTable g)"
    "list_all (\<lambda>a. a < length (spreadStore g)) (spreadsOnTable g)"
    using assms(1) by (simp_all add: conserved_def tableSound_def)
  have a: "a < length (spreadStore g)" using ts(2) assms(4) by (simp add: list_all_iff)
  from assms(5,2) obtain s1 where s1: "Spread_addCard (spreadStore g ! a) c = Inr s1"
    and g': "deck g' = deck g" "players g' = (players g)[?i := ?q]"
    "spreadStore g' = (spreadStore g)[a := s1]"
    "spreadsOnTable g' = spreadsOnTable g" "currentPlayerIndex g' = ?i"
    by (auto simp: hitSpread_def Let_def split: if_splits prod.splits sum.splits bool.splits)
  have hq: "mset (hand ?q) = mset (hand (players g ! ?i)) - {#c#}"
    using removeCard_hand [of p c] by (simp add: p)
  have hands: "sum_list (map (\<lambda>p. mset (hand p)) ((players g)[?i := ?q])) + {#c#}
          = sum_list (map (\<lambda>p. mset (hand p)) (players g))"
    using i hq assms(3) unfolding p by (intro hands_after_removal) simp_all
  have table: "sum_list (map (\<lambda>b. mset (scards ((spreadStore g)[a := s1] ! b))) (spreadsOnTable g))
          = sum_list (map (\<lambda>b. mset (scards (spreadStore g ! b))) (spreadsOnTable g)) + {#c#}"
    using ts(1) assms(4) a Spread_addCard_cards [OF s1] by (rule table_sum_hit)
  have "allCards g' = allCards g"
    unfolding allCards_def g'(1-4) table using hands by (simp add: ac_simps)
  then show ?thesis
    using assms(1) g' i by (simp add: conserved_def tableSound_def)
qed

lemma conserved_after_deal:
  assumes "allCards g = mset generateDeck" and "spreadsOnTable g = []"
    and "currentPlayerIndex g < length (players g)"
    and "dealAndCheckInitialTonk rnds g = Some g'"
  shows "conserved g'"
proof -
  from dealAndCheck_conserves [OF assms(1,2,4)]
  have "allCards g' = mset generateDeck" "tableView g' = tableView g" by simp_all
  then show ?thesis using assms(2,3) by (simp add: conserved_def tableSound_def tableView_def)
qed

lemma conserved_initialize:
  "initialize mkId aiNames rnds n nm = Some g \<Longrightarrow> conserved g"
  by (cases rnds)
     (auto simp: initialize_def intro: conserved_after_deal [OF initialState_conserves])

lemma conserved_startNextRound:
  assumes "conserved g" and "startNextRound rnds g = Some g'"
  shows "conserved g'"
proof (cases rnds)
  case Nil
  with assms(2) show ?thesis by (simp add: startNextRound_def)
next
  case (Cons rnd rest)
  let ?h = "nextRoundState rnd g"
  have "sum_list (map (\<lambda>p. mset (hand p)) (players ?h)) = {#}"
    using no_cards_in_reset_hands [of "\<lambda>p. resetBet (Player_reset p)" "players g"]
    by (simp add: nextRoundState_def resetBet_def Player_reset_def comp_def)
  then have 1: "allCards ?h = mset generateDeck"
    by (simp add: allCards_def nextRoundState_def newDeck_def shuffle_permutes)
  have 2: "spreadsOnTable ?h = []" by (simp add: nextRoundState_def)
  have 3: "currentPlayerIndex ?h < length (players ?h)"
    using assms(1) by (simp add: nextRoundState_def conserved_def tableSound_def)
  from Cons assms(2) have "dealAndCheckInitialTonk rest ?h = Some g'"
    by (simp add: startNextRound_def)
  with 1 2 3 show ?thesis by (rule conserved_after_deal)
qed

text \<open>
  In every state of a run that starts with \<open>initialize\<close>, goes on by the operations of
  \<open>fairPlay\<close>, and in which \<open>laySpread\<close> is given an array of the caller's own with cards of
  the current player's hand and \<open>hitSpread\<close> a card of that hand and a spread of the
  table, draw pile, discard pile, hands and table hold the 52 cards, each once.
\<close>

lemma fairPlay_conserved: "fairPlay g \<Longrightarrow> conserved g"
proof (induction rule: fairPlay.induct)
  case (started mkId aiNames rnds n nm g)
  then show ?case by (rule conserved_initialize)
next
  case (proceeded g g')
  then show ?case by (auto intro: conserved_proceedToDraw)
next
  case (drewFromDeck g g' r)
  then show ?case by (auto intro: conserved_drawFromDeck)
next
  case (drewFromDiscard g g' r)
  then show ?case by (auto intro: conserved_drawFromDiscard)
next
  case (laid g p cs g' a)
  then show ?case by (auto intro: conserved_laySpread)
next
  case (hit g p c a g')
  then show ?case by (auto intro: conserved_hitSpread)
next
  case (discarded g c g')
  then show ?case by (auto intro: conserved_discard)
next
  case (knocked g g')
  then show ?case by (auto intro: conserved_knock)
next
  case (scored g g' losers)
  then show ?case by (auto intro: conserved_scoring)
next
  case (betPlaced g i amount g' r)
  then show ?case by (auto intro: conserved_placeBet)
next
  case (potAwarded g w g' r)
  then show ?case by (auto intro: conserved_awardPot)
next
  case (nextRound g rnds g')
  then show ?case by (auto intro: conserved_startNextRound)
qed

lemma fairPlay_holds_the_deck: "fairPlay g \<Longrightarrow> allCards g = mset generateDeck"
  using fairPlay_conserved by (simp add: conserved_def)

lemma fairPlay_firstRound: "firstRound = Some g \<Longrightarrow> fairPlay g"
  by (simp add: firstRound_def fairPlay.started)

section \<open>Two operations that do not keep the 52 cards\<close>

text \<open>
  \<open>laySpread\<close> on the hand array itself: the current player holds exactly the 7 of spades,
  hearts and diamonds.  The loop of \<open>removeCards\<close> removes the first card, skips the
  second (which has moved to the position the loop has left) and removes the third;
  the spread is built from what is left in the array.  So the hand and the new spread
  both hold the 7 of hearts alone, the other two sevens are nowhere, and the player has
  not gone out.
\<close>

lemma laying_the_hand_array_itself:
  "size (allCards bookInHand) = 4
   \<and> map_sum id (handOf 0 \<circ> fst) (laySpread CurrentHand bookInHand) = Inr [Card Hearts R7]
   \<and> map_sum id (map scards \<circ> spreadStore \<circ> fst) (laySpread CurrentHand bookInHand)
     = Inr [[Card Hearts R7]]
   \<and> map_sum id (phase \<circ> fst) (laySpread CurrentHand bookInHand) = Inr ACTION
   \<and> map_sum id (size \<circ> allCards \<circ> fst) (laySpread CurrentHand bookInHand) = Inr 3
   \<and> map_sum id (handOf 0 \<circ> fst)
       (laySpread (OwnArray [Card Spades R7, Card Hearts R7, Card Diamonds R7]) bookInHand)
     = Inr []"
  by code_simp

text \<open>
  \<open>reset\<close> empties the hands and the table and leaves the deck as it is: after the deal of
  the first round, 42 cards are left.
\<close>

lemma reset_drops_the_hands:
  "map_option (size \<circ> allCards \<circ> reset) firstRound = Some 42"
  by code_simp

end
